theory Spec2Isabelle
  imports Complex_Main "HOL-Library.Multiset"
begin

section \<open>Attack trees: data model\<close>

text \<open>
  The node of an attack tree, as \<^verbatim>\<open>interface AttackTreeNode\<close> of
  \<^verbatim>\<open>pages/AttackTree.tsx\<close> and \<^verbatim>\<open>types/reportTypes\<close> declares it:
  \<^verbatim>\<open>{ id: string; type: 'goal' | 'attack' | 'vulnerability'; label: string;
     children?: AttackTreeNode[] }\<close>.
  The nodes are parsed from JSON (\<^verbatim>\<open>response.json()\<close>), so a value is a finite tree
  without shared or cyclic references; the same id may still occur at several nodes, under
  two parents or again below itself, and that is how a payload repeats or cycles. (Node
  objects that do share children or refer back to an ancestor are treated in the section
  on the exporter, on a store.) \<^verbatim>\<open>id\<close> and \<^verbatim>\<open>label\<close> are strings, as declared and as
  the code uses them. The declared type of
  \<^verbatim>\<open>type\<close> is not checked at run time: the field is kept as the string the payload
  holds, \<open>None\<close> when the payload has none. \<^verbatim>\<open>children\<close> is optional, \<open>None\<close> when
  absent.
\<close>

datatype AttackTreeNode =
  AttackTreeNode (node_id: string) (node_type: "string option") (node_label: string)
    (node_children: "AttackTreeNode list option")

text \<open>JavaScript numbers are modelled as reals: the layout formulas are read as arithmetic.\<close>

record LevelConfig =
  xGapMultiplier :: real
  siblingFactor :: real

record SpacingConfig =
  baseWidth :: real
  level0_xGap :: real
  level1 :: LevelConfig
  level2 :: LevelConfig
  verticalBase :: real
  verticalIncrement :: real
  horizontalOffset :: real

text \<open>The constant \<^verbatim>\<open>config\<close> of \<^verbatim>\<open>processAttackTreeData\<close>.\<close>

definition config :: SpacingConfig where
  "config = \<lparr> baseWidth = 250, level0_xGap = 0,
      level1 = \<lparr> xGapMultiplier = 18 / 10, siblingFactor = 5 / 10 \<rparr>,
      level2 = \<lparr> xGapMultiplier = 1, siblingFactor = 6 / 10 \<rparr>,
      verticalBase = 160, verticalIncrement = 25, horizontalOffset = 15 \<rparr>"

text \<open>
  What the layout hands to the graph widget: a node \<^verbatim>\<open>{id, type, position: {x, y},
  data: {label}}\<close> and an edge \<^verbatim>\<open>{id, source, target}\<close>. The style fields are the
  same constants on every node and edge and are left out.
\<close>

record FlowNode =
  fn_id :: string
  fn_type :: string
  position_x :: real
  position_y :: real
  data_label :: string

record FlowEdge =
  edge_id :: string
  source :: string
  target :: string

section \<open>Layout engine (\<^verbatim>\<open>processAttackTreeData\<close> of \<^verbatim>\<open>pages/AttackTree.tsx\<close>)\<close>

text \<open>\<^verbatim>\<open>node.type || 'goal'\<close>: a missing or empty type is falsy; every other string stays.\<close>

definition type_or_goal :: "string option \<Rightarrow> string" where
  "type_or_goal t = (case t of None \<Rightarrow> ''goal'' | Some s \<Rightarrow> if s = [] then ''goal'' else s)"

text \<open>The horizontal gap \<^verbatim>\<open>xGap\<close> of a call of \<^verbatim>\<open>createNodes\<close>.\<close>

definition xGap_of :: "SpacingConfig \<Rightarrow> nat \<Rightarrow> nat \<Rightarrow> real" where
  "xGap_of cfg level totalSiblings =
     (if level = 0 then 0
      else if level = 1 then
        baseWidth cfg * xGapMultiplier (level1 cfg)
          * max 1 (real totalSiblings * siblingFactor (level1 cfg))
      else
        baseWidth cfg * xGapMultiplier (level2 cfg)
          * max 1 (real totalSiblings * siblingFactor (level2 cfg)))"

text \<open>The coordinates \<^verbatim>\<open>x\<close> and \<^verbatim>\<open>y\<close> of a call of \<^verbatim>\<open>createNodes\<close>.\<close>

definition x_of :: "SpacingConfig \<Rightarrow> nat \<Rightarrow> nat \<Rightarrow> nat \<Rightarrow> real \<Rightarrow> real" where
  "x_of cfg level position totalSiblings parentX =
     (let xGap = xGap_of cfg level totalSiblings in
      if level = 0 then 0
      else if level = 1 then
        (let totalWidth = xGap * (real totalSiblings - 1);
             startX = - totalWidth / 2
         in startX + real position * xGap)
      else
        (let childOffset = ((real totalSiblings - 1) * xGap) / 2;
             x = parentX - childOffset + real position * xGap;
             offsetMultiplier = real position - (real totalSiblings - 1) / 2
         in x + offsetMultiplier * horizontalOffset cfg))"

definition y_of :: "SpacingConfig \<Rightarrow> nat \<Rightarrow> real" where
  "y_of cfg level =
     (let yGap = verticalBase cfg + real level * verticalIncrement cfg
      in real level * yGap)"

text \<open>
  \<^verbatim>\<open>createNodes(node, level, position, totalSiblings, parentX)\<close> pushes the node's
  flow node to \<^verbatim>\<open>flowNodes\<close>, then visits the children in order, each with its index
  and the number of its siblings. The accumulator \<^verbatim>\<open>flowNodes\<close> is passed explicitly.
  (\<^verbatim>\<open>nodePositions\<close> is written and never read, and is left out.)
\<close>

lemma size_child_enumerate [termination_simp]:
  "(idx, c) \<in> set (enumerate n cs) \<Longrightarrow> size c < Suc (size_list size cs)"
proof -
  assume "(idx, c) \<in> set (enumerate n cs)"
  then have "c \<in> set cs" by (auto simp: in_set_enumerate_eq)
  then have "size c \<le> size_list size cs" by (rule size_list_estimation') simp
  then show ?thesis by simp
qed

fun createNodes ::
  "SpacingConfig \<Rightarrow> AttackTreeNode \<Rightarrow> nat \<Rightarrow> nat \<Rightarrow> nat \<Rightarrow> real \<Rightarrow> FlowNode list \<Rightarrow> FlowNode list"
where
  "createNodes cfg (AttackTreeNode i t l ch) level position totalSiblings parentX flowNodes =
     (let x = x_of cfg level position totalSiblings parentX;
          y = y_of cfg level;
          flowNodes1 = flowNodes @
            [\<lparr> fn_id = i, fn_type = type_or_goal t, position_x = x, position_y = y,
               data_label = l \<rparr>]
      in case ch of
           None \<Rightarrow> flowNodes1
         | Some cs \<Rightarrow>
             if length cs > 0 then
               fold (\<lambda>(idx, childNode) acc.
                       createNodes cfg childNode (level + 1) idx (length cs) x acc)
                    (enumerate 0 cs) flowNodes1
             else flowNodes1)"

text \<open>
  \<^verbatim>\<open>createEdges(node)\<close>: for each child in order, push the edge parent\<open>\<rightarrow>\<close>child, then
  the edges of the child's subtree.
\<close>

fun createEdges :: "AttackTreeNode \<Rightarrow> FlowEdge list \<Rightarrow> FlowEdge list" where
  "createEdges (AttackTreeNode i t l ch) flowEdges =
     (case ch of
        None \<Rightarrow> flowEdges
      | Some cs \<Rightarrow>
          if length cs > 0 then
            fold (\<lambda>childNode acc.
                    createEdges childNode
                      (acc @ [\<lparr> edge_id = i @ ''-'' @ node_id childNode, source = i,
                               target = node_id childNode \<rparr>]))
                 cs flowEdges
          else flowEdges)"

text \<open>
  The view's state that the layout writes: \<^verbatim>\<open>nodes\<close> and \<^verbatim>\<open>edges\<close> (here
  \<open>st_nodes\<close> and \<open>st_edges\<close>), what the graph widget draws. \<^verbatim>\<open>processAttackTreeData(treeNodes)\<close> takes \<^verbatim>\<open>treeNodes[0]\<close> as root
  and sets both only when both lists are non-empty.
\<close>

record view_state =
  st_nodes :: "FlowNode list"
  st_edges :: "FlowEdge list"

definition processAttackTreeData :: "AttackTreeNode list \<Rightarrow> view_state \<Rightarrow> view_state" where
  "processAttackTreeData treeNodes st =
     (case treeNodes of
        [] \<Rightarrow> st
      | rootNode # _ \<Rightarrow>
          (let flowNodes = createNodes config rootNode 0 0 1 0 [];
               flowEdges = createEdges rootNode []
           in if length flowNodes > 0 \<and> length flowEdges > 0
              then st\<lparr> st_nodes := flowNodes, st_edges := flowEdges \<rparr>
              else st))"

section \<open>Diagram exporter (\<^verbatim>\<open>generateSimplifiedMermaidDiagram\<close> of \<^verbatim>\<open>pages/Dread.tsx\<close>)\<close>

text \<open>\<^verbatim>\<open>label.replace(/"/g, "'")\<close>: every double quote becomes a single quote.\<close>

definition replace_quotes :: "string \<Rightarrow> string" where
  "replace_quotes s = map (\<lambda>c. if c = CHR 0x22 then CHR 0x27 else c) s"

text \<open>
  The two template strings appended to \<^verbatim>\<open>mermaidContent\<close>: the node definition
  \<^verbatim>\<open>`    ${node.id}["${label}"]\n`\<close> and the connection
  \<^verbatim>\<open>`    ${node.id} --> ${child.id}\n`\<close>.
\<close>

definition node_line :: "string \<Rightarrow> string \<Rightarrow> string" where
  "node_line i l =
     ''    '' @ i @ ''['' @ [CHR 0x22] @ replace_quotes l @ [CHR 0x22] @ '']'' @ [CHR 0x0A]"

definition edge_line :: "string \<Rightarrow> string \<Rightarrow> string" where
  "edge_line p c = ''    '' @ p @ '' --> '' @ c @ [CHR 0x0A]"

text \<open>
  The state the closure \<^verbatim>\<open>processNode\<close> works on: the text built so far and the set
  of ids already processed.
\<close>

record export_state =
  mermaidContent :: string
  processedNodeIds :: "string set"

fun processNode :: "AttackTreeNode \<Rightarrow> export_state \<Rightarrow> export_state" where
  "processNode (AttackTreeNode i t l ch) s =
     (if i \<in> processedNodeIds s then s
      else
        (let s1 = s\<lparr> processedNodeIds := insert i (processedNodeIds s) \<rparr>;
             s2 = s1\<lparr> mermaidContent := mermaidContent s1 @ node_line i l \<rparr>
         in case ch of
              None \<Rightarrow> s2
            | Some cs \<Rightarrow>
                if length cs > 0 then
                  fold (\<lambda>child acc.
                          processNode child
                            (acc\<lparr> mermaidContent :=
                                    mermaidContent acc @ edge_line i (node_id child) \<rparr>))
                       cs s2
                else s2))"

text \<open>\<^verbatim>\<open>nodes.find(node => node.type === 'goal') || nodes[0]\<close>; \<open>None\<close> is \<^verbatim>\<open>undefined\<close>.\<close>

definition find_root :: "AttackTreeNode list \<Rightarrow> AttackTreeNode option" where
  "find_root nodes =
     (case find (\<lambda>node. node_type node = Some ''goal'') nodes of
        Some r \<Rightarrow> Some r
      | None \<Rightarrow> (case nodes of [] \<Rightarrow> None | n # _ \<Rightarrow> Some n))"

definition generateSimplifiedMermaidDiagram :: "AttackTreeNode list \<Rightarrow> string" where
  "generateSimplifiedMermaidDiagram nodes =
     (let s0 = \<lparr> mermaidContent = ''graph TD'' @ [CHR 0x0A], processedNodeIds = {} \<rparr>
      in case find_root nodes of
           None \<Rightarrow> mermaidContent s0
         | Some rootNode \<Rightarrow> mermaidContent (processNode rootNode s0))"

subsection \<open>The statements behind the text\<close>

text \<open>
  To speak about the lines of the text, the same traversal is written once more with the
  appended strings kept apart: a statement is a node definition (of a node) or a
  connection (from a node to one of its children), and \<open>render\<close> is the string the
  exporter appends for it. \<open>processNode_trace\<close> makes the steps of \<open>processNode\<close> on
  the pair of the processed ids and the statements so far; that the two agree is lemma
  \<open>processNode_render\<close> below.
\<close>

datatype statement = NodeDecl AttackTreeNode | Arrow AttackTreeNode AttackTreeNode

fun render :: "statement \<Rightarrow> string" where
  "render (NodeDecl n) = node_line (node_id n) (node_label n)"
| "render (Arrow p c) = edge_line (node_id p) (node_id c)"

fun processNode_trace ::
  "AttackTreeNode \<Rightarrow> string set \<times> statement list \<Rightarrow> string set \<times> statement list"
where
  "processNode_trace (AttackTreeNode i t l ch) s =
     (if i \<in> fst s then s
      else
        (let s2 = (insert i (fst s), snd s @ [NodeDecl (AttackTreeNode i t l ch)])
         in case ch of
              None \<Rightarrow> s2
            | Some cs \<Rightarrow>
                if length cs > 0 then
                  fold (\<lambda>child acc.
                          processNode_trace child
                            (fst acc, snd acc @ [Arrow (AttackTreeNode i t l ch) child]))
                       cs s2
                else s2))"

definition export_statements :: "AttackTreeNode list \<Rightarrow> statement list" where
  "export_statements nodes =
     (case find_root nodes of
        None \<Rightarrow> []
      | Some rootNode \<Rightarrow> snd (processNode_trace rootNode ({}, [])))"

text \<open>The nodes defined and the connections made by a list of statements, in order.\<close>

fun declared :: "statement list \<Rightarrow> AttackTreeNode list" where
  "declared [] = []"
| "declared (NodeDecl n # ss) = n # declared ss"
| "declared (Arrow p c # ss) = declared ss"

fun arrows :: "statement list \<Rightarrow> (AttackTreeNode \<times> AttackTreeNode) list" where
  "arrows [] = []"
| "arrows (NodeDecl n # ss) = arrows ss"
| "arrows (Arrow p c # ss) = (p, c) # arrows ss"

subsection \<open>The exporter on objects that share children or refer back\<close>

text \<open>
  \<^verbatim>\<open>processNode\<close> is written for node objects, and nothing in it relies on the objects
  forming a tree: objects built by hand can share a child or have an ancestor among their
  descendants. To cover such inputs the nodes are kept in a store: a reference of type
  \<open>'r\<close> stands for an object, \<open>store r\<close> is the object, and its children are references.
  On a store the recursion need not end, so \<open>processNode_store\<close> takes fuel, one unit for
  each nested call, and \<open>None\<close> says that the fuel ran out; \<open>fold_option\<close> is
  \<^verbatim>\<open>forEach\<close> for a body that may not return. \<open>unfold k\<close> is the tree that a reference
  stands for, cut below depth \<open>k\<close>.
\<close>

record 'r node_obj =
  obj_id :: string
  obj_type :: "string option"
  obj_label :: string
  obj_children :: "'r list option"

fun fold_option :: "('a \<Rightarrow> 's \<Rightarrow> 's option) \<Rightarrow> 'a list \<Rightarrow> 's \<Rightarrow> 's option" where
  "fold_option f [] s = Some s"
| "fold_option f (x # xs) s = (case f x s of None \<Rightarrow> None | Some s' \<Rightarrow> fold_option f xs s')"

fun processNode_store ::
  "nat \<Rightarrow> ('r \<Rightarrow> 'r node_obj) \<Rightarrow> 'r \<Rightarrow> export_state \<Rightarrow> export_state option"
where
  "processNode_store 0 store node s = None"
| "processNode_store (Suc fuel) store node s =
     (if obj_id (store node) \<in> processedNodeIds s then Some s
      else
        (let s1 = s\<lparr> processedNodeIds := insert (obj_id (store node)) (processedNodeIds s) \<rparr>;
             s2 = s1\<lparr> mermaidContent := mermaidContent s1
                        @ node_line (obj_id (store node)) (obj_label (store node)) \<rparr>
         in case obj_children (store node) of
              None \<Rightarrow> Some s2
            | Some cs \<Rightarrow>
                if length cs > 0 then
                  fold_option (\<lambda>child acc.
                          processNode_store fuel store child
                            (acc\<lparr> mermaidContent := mermaidContent acc
                                    @ edge_line (obj_id (store node)) (obj_id (store child)) \<rparr>))
                       cs s2
                else Some s2))"

declare processNode_store.simps [simp del]

definition generate_store ::
  "nat \<Rightarrow> ('r \<Rightarrow> 'r node_obj) \<Rightarrow> 'r list \<Rightarrow> string option"
where
  "generate_store fuel store nodes =
     (let s0 = \<lparr> mermaidContent = ''graph TD'' @ [CHR 0x0A], processedNodeIds = {} \<rparr>
      in case (case find (\<lambda>node. obj_type (store node) = Some ''goal'') nodes of
                 Some r \<Rightarrow> Some r
               | None \<Rightarrow> (case nodes of [] \<Rightarrow> None | n # _ \<Rightarrow> Some n)) of
           None \<Rightarrow> Some (mermaidContent s0)
         | Some rootNode \<Rightarrow> map_option mermaidContent (processNode_store fuel store rootNode s0))"

fun unfold :: "nat \<Rightarrow> ('r \<Rightarrow> 'r node_obj) \<Rightarrow> 'r \<Rightarrow> AttackTreeNode" where
  "unfold 0 store r =
     AttackTreeNode (obj_id (store r)) (obj_type (store r)) (obj_label (store r)) None"
| "unfold (Suc k) store r =
     AttackTreeNode (obj_id (store r)) (obj_type (store r)) (obj_label (store r))
       (map_option (map (unfold k store)) (obj_children (store r)))"

section \<open>Tree normalizer (the response handling of \<^verbatim>\<open>fetchData\<close> in \<^verbatim>\<open>pages/AttackTree.tsx\<close>)\<close>

text \<open>
  The parsed response. An object is the list of its members in the order of the text;
  \<^verbatim>\<open>JSON.parse\<close> keeps the last member of a repeated key.
\<close>

datatype json =
  JNull | JBool bool | JNumber real | JString string | JArray "json list"
  | JObject "(string \<times> json) list"

text \<open>
  \<^verbatim>\<open>v?.key\<close> for the keys read here (\<^verbatim>\<open>result\<close>, \<^verbatim>\<open>attack_tree\<close>, \<^verbatim>\<open>nodes\<close>), none of
  which a string, a number, a boolean or an array has: \<open>None\<close> is \<^verbatim>\<open>undefined\<close>.
\<close>

fun get_key :: "json option \<Rightarrow> string \<Rightarrow> json option" where
  "get_key (Some (JObject members)) key = map_of (rev members) key"
| "get_key _ key = None"

text \<open>JavaScript's truthiness, which the \<^verbatim>\<open>if\<close> conditions test.\<close>

fun truthy :: "json option \<Rightarrow> bool" where
  "truthy None = False"
| "truthy (Some JNull) = False"
| "truthy (Some (JBool b)) = b"
| "truthy (Some (JNumber x)) = (x \<noteq> 0)"
| "truthy (Some (JString s)) = (s \<noteq> [])"
| "truthy (Some (JArray xs)) = True"
| "truthy (Some (JObject members)) = True"

text \<open>
  The value of \<^verbatim>\<open>treeNodes\<close> after the three cases: \<open>None\<close> is the \<^verbatim>\<open>null\<close> it starts
  with.
\<close>

definition treeNodes_of :: "json \<Rightarrow> json option" where
  "treeNodes_of data =
     (if truthy (get_key (get_key (get_key (get_key (Some data) ''result'') ''result'')
                    ''attack_tree'') ''nodes'')
      then get_key (get_key (get_key (get_key (Some data) ''result'') ''result'')
                    ''attack_tree'') ''nodes''
      else if truthy (get_key (get_key (get_key (Some data) ''result'') ''attack_tree'') ''nodes'')
      then get_key (get_key (get_key (Some data) ''result'') ''attack_tree'') ''nodes''
      else if truthy (get_key (get_key (Some data) ''result'') ''nodes'')
      then get_key (get_key (Some data) ''result'') ''nodes''
      else None)"

text \<open>
  What \<^verbatim>\<open>fetchData\<close> ends with, for the response \<^verbatim>\<open>data\<close> and the answer of the
  fallback \<^verbatim>\<open>apiService.getAttackTree\<close> (\<open>Inl\<close> its error message when it throws): the
  node list passed to \<^verbatim>\<open>processAttackTreeData\<close>, or the message given to
  \<^verbatim>\<open>setError\<close> by the \<^verbatim>\<open>catch\<close> block.
\<close>

datatype fetch_result = Processed json | ErrorState string

definition fetchData :: "json \<Rightarrow> string + json \<Rightarrow> fetch_result" where
  "fetchData data attackTreeResponse =
     (case treeNodes_of data of
        Some treeNodes \<Rightarrow> Processed treeNodes
      | None \<Rightarrow>
          (case attackTreeResponse of
             Inl message \<Rightarrow> ErrorState message
           | Inr r \<Rightarrow>
               (case get_key (get_key (get_key (get_key (Some r) ''result'') ''result'')
                        ''attack_tree'') ''nodes'' of
                  None \<Rightarrow> ErrorState ''Invalid attack tree data format received''
                | Some ns \<Rightarrow>
                    if truthy (Some ns) then Processed ns
                    else ErrorState ''Invalid attack tree data format received'')))"

section \<open>Notions the properties are stated with\<close>

text \<open>
  The children of a node, none when \<^verbatim>\<open>children\<close> is absent; all nodes of a tree in
  preorder (the node, then the subtrees of its children in order), so that the length of
  \<open>subtrees\<close> is the number of nodes; the same list with the depth of each node; the
  flow node that one call of \<^verbatim>\<open>createNodes\<close> pushes; the edge that \<^verbatim>\<open>createEdges\<close>
  pushes for a parent and a child; the edges of all parent--child pairs of a list of nodes.
\<close>

definition kids :: "AttackTreeNode \<Rightarrow> AttackTreeNode list" where
  "kids n = (case node_children n of None \<Rightarrow> [] | Some cs \<Rightarrow> cs)"

fun subtrees :: "AttackTreeNode \<Rightarrow> AttackTreeNode list" where
  "subtrees (AttackTreeNode i t l ch) =
     AttackTreeNode i t l ch # (case ch of None \<Rightarrow> [] | Some cs \<Rightarrow> concat (map subtrees cs))"

fun with_depth :: "nat \<Rightarrow> AttackTreeNode \<Rightarrow> (AttackTreeNode \<times> nat) list" where
  "with_depth d (AttackTreeNode i t l ch) =
     (AttackTreeNode i t l ch, d)
       # (case ch of None \<Rightarrow> [] | Some cs \<Rightarrow> concat (map (with_depth (Suc d)) cs))"

definition flow_node :: "SpacingConfig \<Rightarrow> AttackTreeNode \<Rightarrow> nat \<Rightarrow> nat \<Rightarrow> nat \<Rightarrow> real \<Rightarrow> FlowNode" where
  "flow_node cfg n level position totalSiblings parentX =
     \<lparr> fn_id = node_id n, fn_type = type_or_goal (node_type n),
       position_x = x_of cfg level position totalSiblings parentX,
       position_y = y_of cfg level, data_label = node_label n \<rparr>"

definition edge_of :: "AttackTreeNode \<Rightarrow> AttackTreeNode \<Rightarrow> FlowEdge" where
  "edge_of p c = \<lparr> edge_id = node_id p @ ''-'' @ node_id c, source = node_id p, target = node_id c \<rparr>"

definition parent_child_edges :: "AttackTreeNode list \<Rightarrow> FlowEdge list" where
  "parent_child_edges ns = concat (map (\<lambda>p. map (edge_of p) (kids p)) ns)"

text \<open>
  The index, in the list of flow nodes, of the child \<open>idx\<close> of the root: after the root
  and the subtrees of the children before it. \<open>depth1_x\<close> is the x-coordinate found there.
\<close>

definition child_position :: "AttackTreeNode list \<Rightarrow> nat \<Rightarrow> nat" where
  "child_position cs idx = Suc (sum_list (map (\<lambda>c. length (subtrees c)) (take idx cs)))"

definition depth1_x :: "SpacingConfig \<Rightarrow> AttackTreeNode \<Rightarrow> nat \<Rightarrow> real" where
  "depth1_x cfg rootNode idx =
     position_x (createNodes cfg rootNode 0 0 1 0 [] ! child_position (kids rootNode) idx)"

text \<open>A tree with three children under the root, for the examples.\<close>

definition three_children :: AttackTreeNode where
  "three_children =
     AttackTreeNode ''g'' (Some ''goal'') ''Compromise System''
       (Some [AttackTreeNode ''a1'' (Some ''attack'') ''Phish Admin''
                (Some [AttackTreeNode ''v1'' (Some ''vulnerability'') ''Weak Password Policy'' None]),
              AttackTreeNode ''a2'' (Some ''attack'') ''Exploit Web Vuln'' None,
              AttackTreeNode ''a3'' (Some ''attack'') ''Steal Token'' (Some [])])"

text \<open>
  For the exporter: the state of \<open>processNode\<close> that a text \<open>txt\<close> followed by the
  rendering of the statements stands for; the pairs of a node and each of its children, for
  a list of nodes; the ids of the nodes a list of statements declares.
\<close>

definition state_of :: "string \<Rightarrow> string set \<times> statement list \<Rightarrow> export_state" where
  "state_of txt s = \<lparr> mermaidContent = txt @ concat (map render (snd s)), processedNodeIds = fst s \<rparr>"

definition child_pairs :: "AttackTreeNode list \<Rightarrow> (AttackTreeNode \<times> AttackTreeNode) list" where
  "child_pairs ns = concat (map (\<lambda>p. map (Pair p) (kids p)) ns)"

definition declared_ids :: "statement list \<Rightarrow> string list" where
  "declared_ids ss = map node_id (declared ss)"

text \<open>The ids declared so far are the processed ids, each declared once.\<close>

definition decl_inv :: "string set \<times> statement list \<Rightarrow> bool" where
  "decl_inv s = (distinct (declared_ids (snd s)) \<and> set (declared_ids (snd s)) = fst s)"

text \<open>Both ends of every connection are processed ids, once the target has been visited.\<close>

definition arrows_inv :: "string set \<times> statement list \<Rightarrow> bool" where
  "arrows_inv s = (node_id ` fst ` set (arrows (snd s)) \<subseteq> fst s
                   \<and> node_id ` snd ` set (arrows (snd s)) \<subseteq> fst s)"

text \<open>
  Examples: a tree of one node; the state of the view before the layout runs
  (\<^verbatim>\<open>useState([])\<close> for both); a payload in which the id \<open>d\<close> occurs under two parents
  and the id \<open>a\<close> occurs again under \<open>d\<close>; a node list whose first node is not a goal.
\<close>

definition single_node :: AttackTreeNode where
  "single_node = AttackTreeNode ''g'' (Some ''goal'') ''Compromise System'' None"

definition initial_view :: view_state where
  "initial_view = \<lparr> st_nodes = [], st_edges = [] \<rparr>"

definition diamond :: AttackTreeNode where
  "diamond =
     AttackTreeNode ''a'' (Some ''goal'') ''A''
       (Some [AttackTreeNode ''b'' (Some ''attack'') ''B''
                (Some [AttackTreeNode ''d'' (Some ''vulnerability'') ''D''
                         (Some [AttackTreeNode ''a'' (Some ''goal'') ''A'' None])]),
              AttackTreeNode ''c'' (Some ''attack'') ''C''
                (Some [AttackTreeNode ''d'' (Some ''vulnerability'') ''D''
                         (Some [AttackTreeNode ''a'' (Some ''goal'') ''A'' None])])])"

definition two_roots :: "AttackTreeNode list" where
  "two_roots =
     [AttackTreeNode ''a'' (Some ''attack'') ''Phish Admin''
        (Some [AttackTreeNode ''x'' (Some ''vulnerability'') ''Weak Password Policy'' None]),
      AttackTreeNode ''g'' (Some ''goal'') ''Compromise System''
        (Some [AttackTreeNode ''y'' (Some ''attack'') ''Exploit Web Vuln'' None])]"

text \<open>
  The same tree with every \<^verbatim>\<open>type\<close> field changed by \<open>f\<close>; two nodes for the examples,
  one with a kind outside the three declared ones.
\<close>

fun map_types :: "(string option \<Rightarrow> string option) \<Rightarrow> AttackTreeNode \<Rightarrow> AttackTreeNode" where
  "map_types f (AttackTreeNode i t l ch) =
     AttackTreeNode i (f t) l (map_option (map (map_types f)) ch)"

definition odd_kind :: AttackTreeNode where
  "odd_kind = AttackTreeNode ''n1'' (Some ''threat'') ''Insider'' None"

definition goal_leaf :: AttackTreeNode where
  "goal_leaf = AttackTreeNode ''g'' (Some ''goal'') ''Compromise System'' None"

text \<open>
  For the normalizer: the value found in a payload by following a list of keys, and
  payloads of the shapes in question around a list of one node.
\<close>

definition at_path :: "string list \<Rightarrow> json \<Rightarrow> json option" where
  "at_path keys data = foldl get_key (Some data) keys"

definition a_node :: json where
  "a_node = JObject [(''id'', JString ''g''), (''type'', JString ''goal''),
                     (''label'', JString ''Compromise System'')]"

definition top_level_nodes :: json where
  "top_level_nodes = JObject [(''timestamp'', JString ''t''), (''nodes'', JArray [a_node])]"

definition nested_nodes :: json where
  "nested_nodes =
     JObject [(''result'', JObject [(''result'', JObject [(''nodes'', JArray [a_node])])])]"

definition double_nested :: json where
  "double_nested =
     JObject [(''result'', JObject [(''result'',
        JObject [(''attack_tree'', JObject [(''nodes'', JArray [a_node])])])])]"

definition standard_shape :: json where
  "standard_shape =
     JObject [(''result'', JObject [(''attack_tree'', JObject [(''nodes'', JArray [a_node])])])]"

definition result_nodes :: json where
  "result_nodes = JObject [(''result'', JObject [(''nodes'', JArray [a_node])])]"

text \<open>
  A store with a cycle: \<open>a\<close> has the child \<open>b\<close> twice, and \<open>b\<close> has the child \<open>a\<close>.
\<close>

definition two_cycle :: "nat \<Rightarrow> nat node_obj" where
  "two_cycle r =
     (if r = 0
      then \<lparr> obj_id = ''a'', obj_type = Some ''goal'', obj_label = ''A'',
             obj_children = Some [1, 1] \<rparr>
      else \<lparr> obj_id = ''b'', obj_type = Some ''attack'', obj_label = ''B'',
             obj_children = Some [0] \<rparr>)"

section \<open>Properties of the layout engine\<close>

subsection \<open>Lists\<close>

lemma fold_append_acc:
  assumes "\<And>x acc. x \<in> set xs \<Longrightarrow> f x acc = acc @ f x []"
  shows "fold f xs acc = acc @ concat (map (\<lambda>x. f x []) xs)"
  using assms
proof (induction xs arbitrary: acc)
  case Nil
  show ?case by simp
next
  case (Cons a xs)
  have tl: "\<And>x acc. x \<in> set xs \<Longrightarrow> f x acc = acc @ f x []"
    by (rule Cons.prems) simp
  have hd: "f a acc = acc @ f a []"
    by (rule Cons.prems) simp
  have "fold f (a # xs) acc = fold f xs (f a acc)" by simp
  also have "\<dots> = f a acc @ concat (map (\<lambda>x. f x []) xs)"
    by (rule Cons.IH[OF tl])
  also have "\<dots> = (acc @ f a []) @ concat (map (\<lambda>x. f x []) xs)"
    by (simp only: hd[symmetric])
  finally show ?case by simp
qed

lemma map_enumerate_cong:
  assumes "\<And>idx c. c \<in> set cs \<Longrightarrow> F idx c = G c"
  shows "map (\<lambda>(idx, c). F idx c) (enumerate k cs) = map G cs"
proof -
  have "map (\<lambda>(idx, c). F idx c) (enumerate k cs) = map (\<lambda>p. G (snd p)) (enumerate k cs)"
  proof (rule map_cong[OF refl])
    fix p assume "p \<in> set (enumerate k cs)"
    then have "fst p - k < length cs" "cs ! (fst p - k) = snd p"
      by (auto simp: in_set_enumerate_eq)
    then have "snd p \<in> set cs" using nth_mem[of "fst p - k" cs] by simp
    then have "F (fst p) (snd p) = G (snd p)" by (rule assms)
    then show "(case p of (idx, c) \<Rightarrow> F idx c) = G (snd p)" by (simp add: case_prod_unfold)
  qed
  also have "\<dots> = map G (map snd (enumerate k cs))" by (simp only: map_map o_def)
  also have "\<dots> = map G cs" by (simp only: map_snd_enumerate)
  finally show ?thesis .
qed

subsection \<open>Trees\<close>

lemma kids_simps [simp]:
  "kids (AttackTreeNode i t l None) = []"
  "kids (AttackTreeNode i t l (Some cs)) = cs"
  by (simp_all add: kids_def)

lemma node_induct [case_names node]:
  assumes "\<And>n. (\<And>c. c \<in> set (kids n) \<Longrightarrow> P c) \<Longrightarrow> P n"
  shows "P n"
proof (induction n rule: subtrees.induct)
  case (1 i t l ch)
  show ?case
  proof (rule assms)
    fix c assume "c \<in> set (kids (AttackTreeNode i t l ch))"
    then obtain cs where "ch = Some cs" "c \<in> set cs" by (cases ch) auto
    then show "P c" by (rule "1.IH")
  qed
qed

lemma subtrees_kids: "subtrees n = n # concat (map subtrees (kids n))"
  by (cases n) (simp split: option.split)

lemma with_depth_kids: "with_depth d n = (n, d) # concat (map (with_depth (Suc d)) (kids n))"
  by (cases n) (simp split: option.split)

lemma map_fst_with_depth: "map fst (with_depth d n) = subtrees n"
proof (induction n arbitrary: d rule: node_induct)
  case (node n)
  have "map (\<lambda>c. map fst (with_depth (Suc d) c)) (kids n) = map subtrees (kids n)"
    by (rule map_cong[OF refl]) (rule node.IH)
  then show ?case
    by (simp only: with_depth_kids[of d n] subtrees_kids[of n] list.map map_concat map_map o_def fst_conv)
qed

subsection \<open>The nodes pushed by \<^verbatim>\<open>createNodes\<close>\<close>

lemma createNodes_acc:
  "createNodes cfg n level position totalSiblings parentX acc
     = acc @ createNodes cfg n level position totalSiblings parentX []"
proof (induction cfg n level position totalSiblings parentX acc
        rule: createNodes.induct)
  case (1 cfg i t l ch level position totalSiblings parentX flowNodes)
  define x where "x = x_of cfg level position totalSiblings parentX"
  define fnode where "fnode = \<lparr> fn_id = i, fn_type = type_or_goal t, position_x = x,
      position_y = y_of cfg level, data_label = l \<rparr>"
  show ?case
  proof (cases ch)
    case None
    then show ?thesis by (simp add: Let_def)
  next
    case (Some cs)
    define f where "f = (\<lambda>(idx, childNode) acc.
        createNodes cfg childNode (level + 1) idx (length cs) x acc)"
    have step: "f p acc = acc @ f p []" if mem: "p \<in> set (enumerate 0 cs)" for p acc
    proof -
      obtain idx c where p: "p = (idx, c)" by (cases p)
      have "cs \<noteq> []" using mem by auto
      then have pos: "0 < length cs" by simp
      have "createNodes cfg c (level + 1) idx (length cs) x acc
              = acc @ createNodes cfg c (level + 1) idx (length cs) x []"
        unfolding x_def
        by (rule "1.IH"[OF refl refl refl Some pos mem[unfolded p] refl])
      then show ?thesis by (simp only: f_def p prod.case)
    qed
    have fold_eq: "fold f (enumerate 0 cs) acc = acc @ concat (map (\<lambda>p. f p []) (enumerate 0 cs))"
      for acc
      by (rule fold_append_acc) (rule step)
    have lhs: "createNodes cfg (AttackTreeNode i t l ch) level position totalSiblings parentX acc
        = (if length cs > 0 then fold f (enumerate 0 cs) (acc @ [fnode]) else acc @ [fnode])"
      for acc
      by (simp only: createNodes.simps Let_def Some option.case f_def x_def fnode_def)
    show ?thesis
      by (simp only: lhs fold_eq append_assoc if_distrib[of "\<lambda>z. flowNodes @ z"] append_Nil
            split: if_split)
  qed
qed

lemma createNodes_unfold:
  "createNodes cfg n level position totalSiblings parentX []
     = flow_node cfg n level position totalSiblings parentX
        # concat (map (\<lambda>(idx, c). createNodes cfg c (Suc level) idx (length (kids n))
                         (x_of cfg level position totalSiblings parentX) [])
                   (enumerate 0 (kids n)))"
proof (cases n)
  case (AttackTreeNode i t l ch)
  define x where "x = x_of cfg level position totalSiblings parentX"
  show ?thesis
  proof (cases ch)
    case None
    then show ?thesis using AttackTreeNode by (simp add: flow_node_def)
  next
    case (Some cs)
    define f where "f = (\<lambda>(idx, childNode) acc.
        createNodes cfg childNode (level + 1) idx (length cs) x acc)"
    have step: "f p acc = acc @ f p []" for p acc
    proof -
      obtain idx c where p: "p = (idx, c)" by (cases p)
      show ?thesis
        by (simp only: f_def p prod.case) (rule createNodes_acc)
    qed
    have fold_eq: "fold f (enumerate 0 cs) acc = acc @ concat (map (\<lambda>p. f p []) (enumerate 0 cs))"
      for acc
      by (rule fold_append_acc) (rule step)
    have lhs: "createNodes cfg n level position totalSiblings parentX []
        = (if length cs > 0 then fold f (enumerate 0 cs) [flow_node cfg n level position totalSiblings parentX]
           else [flow_node cfg n level position totalSiblings parentX])"
      by (simp only: AttackTreeNode createNodes.simps Let_def Some option.case f_def x_def
            flow_node_def AttackTreeNode.sel append_Nil)
    have f_alt: "(\<lambda>p. f p []) = (\<lambda>(idx, c). createNodes cfg c (Suc level) idx (length cs) x [])"
      by (simp add: f_def fun_eq_iff)
    show ?thesis
    proof (cases "cs = []")
      case True
      then show ?thesis using lhs AttackTreeNode Some by simp
    next
      case False
      then have main: "createNodes cfg n level position totalSiblings parentX []
          = flow_node cfg n level position totalSiblings parentX
              # concat (map (\<lambda>p. f p []) (enumerate 0 cs))"
        by (simp only: lhs fold_eq) simp
      have k: "kids n = cs" using AttackTreeNode Some by simp
      show ?thesis by (simp only: main f_alt k x_def)
    qed
  qed
qed

lemma createNodes_map:
  assumes "\<And>m level position totalSiblings parentX.
             h (flow_node cfg m level position totalSiblings parentX) = g m level"
  shows "map h (createNodes cfg n level position totalSiblings parentX [])
           = map (\<lambda>(m, d). g m d) (with_depth level n)"
proof (induction n arbitrary: level position totalSiblings parentX rule: node_induct)
  case (node n)
  let ?g = "\<lambda>(m, d). g m d"
  let ?x = "x_of cfg level position totalSiblings parentX"
  have blocks: "map (\<lambda>(idx, c). map h (createNodes cfg c (Suc level) idx (length (kids n)) ?x []))
           (enumerate 0 (kids n))
        = map (\<lambda>c. map ?g (with_depth (Suc level) c)) (kids n)"
    by (rule map_enumerate_cong) (rule node.IH)
  have "map h (createNodes cfg n level position totalSiblings parentX [])
      = h (flow_node cfg n level position totalSiblings parentX)
          # concat (map (\<lambda>(idx, c). map h (createNodes cfg c (Suc level) idx (length (kids n)) ?x []))
                     (enumerate 0 (kids n)))"
    by (subst createNodes_unfold) (simp add: map_concat case_prod_unfold o_def)
  also have "\<dots> = ?g (n, level) # concat (map (\<lambda>c. map ?g (with_depth (Suc level) c)) (kids n))"
    by (simp only: blocks assms prod.case)
  also have "\<dots> = map ?g (with_depth level n)"
    by (subst with_depth_kids) (simp add: map_concat o_def)
  finally show ?case .
qed

lemma createNodes_id_y:
  "map (\<lambda>f. (fn_id f, position_y f)) (createNodes cfg n level position totalSiblings parentX [])
     = map (\<lambda>(m, d). (node_id m, y_of cfg d)) (with_depth level n)"
  by (rule createNodes_map) (simp add: flow_node_def)

lemma createNodes_types:
  "map fn_type (createNodes cfg n level position totalSiblings parentX [])
     = map (\<lambda>m. type_or_goal (node_type m)) (subtrees n)"
proof -
  have "map fn_type (createNodes cfg n level position totalSiblings parentX [])
      = map (\<lambda>(m, d). type_or_goal (node_type m)) (with_depth level n)"
    by (rule createNodes_map) (simp add: flow_node_def)
  also have "\<dots> = map (\<lambda>m. type_or_goal (node_type m)) (map fst (with_depth level n))"
    by (simp add: case_prod_unfold o_def)
  finally show ?thesis by (simp only: map_fst_with_depth)
qed

subsection \<open>The edges pushed by \<^verbatim>\<open>createEdges\<close>\<close>

lemma createEdges_acc: "createEdges n acc = acc @ createEdges n []"
proof (induction n acc rule: createEdges.induct)
  case (1 i t l ch flowEdges)
  show ?case
  proof (cases ch)
    case None
    then show ?thesis by simp
  next
    case (Some cs)
    define e where "e = (\<lambda>childNode. \<lparr> edge_id = i @ ''-'' @ node_id childNode, source = i,
                               target = node_id childNode \<rparr>)"
    define f where "f = (\<lambda>childNode acc. createEdges childNode (acc @ [e childNode]))"
    have step: "f c acc = acc @ f c []" if mem: "c \<in> set cs" for c acc
    proof -
      have "cs \<noteq> []" using mem by auto
      then have pos: "0 < length cs" by simp
      have ih: "createEdges c (a @ [e c]) = (a @ [e c]) @ createEdges c []" for a
        unfolding e_def by (rule "1.IH"[OF Some pos mem])
      have "f c acc = (acc @ [e c]) @ createEdges c []"
        unfolding f_def by (rule ih)
      also have "\<dots> = acc @ ([] @ [e c]) @ createEdges c []" by simp
      also have "([] @ [e c]) @ createEdges c [] = f c []"
        unfolding f_def by (rule ih[symmetric])
      finally show ?thesis .
    qed
    have fold_eq: "fold f cs acc = acc @ concat (map (\<lambda>c. f c []) cs)" for acc
      by (rule fold_append_acc) (rule step)
    have lhs: "createEdges (AttackTreeNode i t l ch) acc
        = (if length cs > 0 then fold f cs acc else acc)" for acc
      by (simp only: createEdges.simps Some option.case f_def e_def)
    show ?thesis
      by (simp only: lhs fold_eq if_distrib[of "\<lambda>z. flowEdges @ z"] append_Nil append_Nil2
            split: if_split)
  qed
qed

lemma createEdges_unfold:
  "createEdges n [] = concat (map (\<lambda>c. edge_of n c # createEdges c []) (kids n))"
proof (cases n)
  case (AttackTreeNode i t l ch)
  show ?thesis
  proof (cases ch)
    case None
    then show ?thesis using AttackTreeNode by simp
  next
    case (Some cs)
    define f where "f = (\<lambda>childNode acc. createEdges childNode (acc @ [edge_of n childNode]))"
    have step: "f c acc = acc @ f c []" for c acc
    proof -
      have "f c acc = (acc @ [edge_of n c]) @ createEdges c []"
        unfolding f_def by (rule createEdges_acc)
      also have "\<dots> = acc @ ([] @ [edge_of n c]) @ createEdges c []" by simp
      also have "([] @ [edge_of n c]) @ createEdges c [] = f c []"
        unfolding f_def by (rule createEdges_acc[symmetric])
      finally show ?thesis .
    qed
    have f_nil: "f c [] = edge_of n c # createEdges c []" for c
    proof -
      have "f c [] = ([] @ [edge_of n c]) @ createEdges c []"
        unfolding f_def by (rule createEdges_acc)
      then show ?thesis by simp
    qed
    have fold_eq: "fold f cs [] = concat (map (\<lambda>c. f c []) cs)"
      using fold_append_acc[of cs f "[]", OF step] by simp
    have lhs: "createEdges n [] = (if length cs > 0 then fold f cs [] else [])"
      by (simp only: AttackTreeNode createEdges.simps Some option.case f_def edge_of_def
            AttackTreeNode.sel)
    have k: "kids n = cs" using AttackTreeNode Some by simp
    show ?thesis
    proof (cases "cs = []")
      case True
      then show ?thesis using lhs k by simp
    next
      case False
      then have "createEdges n [] = concat (map (\<lambda>c. f c []) cs)"
        by (simp only: lhs fold_eq) simp
      then show ?thesis by (simp only: f_nil k)
    qed
  qed
qed

lemma parent_child_edges_Cons:
  "parent_child_edges (p # ns) = map (edge_of p) (kids p) @ parent_child_edges ns"
  by (simp add: parent_child_edges_def)

lemma parent_child_edges_append:
  "parent_child_edges (xs @ ys) = parent_child_edges xs @ parent_child_edges ys"
  by (simp add: parent_child_edges_def)

lemma parent_child_edges_concat:
  "parent_child_edges (concat xss) = concat (map parent_child_edges xss)"
  by (induction xss) (simp_all add: parent_child_edges_append, simp add: parent_child_edges_def)

lemma mset_edge_blocks:
  assumes "\<And>c. c \<in> set cs \<Longrightarrow> mset (E c) = mset (P c)"
  shows "mset (concat (map (\<lambda>c. e c # E c) cs)) = mset (map e cs) + mset (concat (map P cs))"
  using assms
proof (induction cs)
  case Nil
  show ?case by simp
next
  case (Cons a cs)
  have a: "mset (E a) = mset (P a)" by (rule Cons.prems) simp
  have "mset (concat (map (\<lambda>c. e c # E c) cs)) = mset (map e cs) + mset (concat (map P cs))"
    by (rule Cons.IH) (rule Cons.prems, simp)
  then show ?case using a by simp
qed

lemma createEdges_mset:
  "mset (createEdges n []) = mset (parent_child_edges (subtrees n))"
proof (induction n rule: node_induct)
  case (node n)
  have "mset (createEdges n [])
      = mset (map (edge_of n) (kids n))
          + mset (concat (map (\<lambda>c. parent_child_edges (subtrees c)) (kids n)))"
    by (subst createEdges_unfold) (rule mset_edge_blocks, rule node.IH)
  also have "concat (map (\<lambda>c. parent_child_edges (subtrees c)) (kids n))
      = parent_child_edges (concat (map subtrees (kids n)))"
    by (simp only: parent_child_edges_concat map_map o_def)
  also have "mset (map (edge_of n) (kids n)) + mset (parent_child_edges (concat (map subtrees (kids n))))
      = mset (parent_child_edges (subtrees n))"
    by (simp only: subtrees_kids[of n] parent_child_edges_Cons mset_append)
  finally show ?case .
qed

lemma length_edge_blocks:
  assumes "\<And>c. c \<in> set cs \<Longrightarrow> Suc (length (E c)) = length (S c)"
  shows "length (concat (map (\<lambda>c. e c # E c) cs)) = length (concat (map S cs))"
  using assms
proof (induction cs)
  case Nil
  show ?case by simp
next
  case (Cons a cs)
  have a: "Suc (length (E a)) = length (S a)" by (rule Cons.prems) simp
  have "length (concat (map (\<lambda>c. e c # E c) cs)) = length (concat (map S cs))"
    by (rule Cons.IH) (rule Cons.prems, simp)
  then show ?case using a by simp
qed

lemma createEdges_length: "Suc (length (createEdges n [])) = length (subtrees n)"
proof (induction n rule: node_induct)
  case (node n)
  have "length (createEdges n []) = length (concat (map subtrees (kids n)))"
    by (subst createEdges_unfold) (rule length_edge_blocks, rule node.IH)
  then show ?case by (subst subtrees_kids) simp
qed

lemma createNodes_ids:
  "map fn_id (createNodes cfg n level position totalSiblings parentX []) = map node_id (subtrees n)"
proof -
  have "map fst (map (\<lambda>f. (fn_id f, position_y f)) (createNodes cfg n level position totalSiblings parentX []))
      = map fst (map (\<lambda>(m, d). (node_id m, y_of cfg d)) (with_depth level n))"
    by (simp only: createNodes_id_y)
  then have "map fn_id (createNodes cfg n level position totalSiblings parentX [])
      = map node_id (map fst (with_depth level n))"
    by (simp add: o_def case_prod_unfold)
  then show ?thesis by (simp only: map_fst_with_depth)
qed

subsection \<open>The flow node of a child\<close>

lemma nth_concat_block:
  "idx < length bs \<Longrightarrow> bs ! idx \<noteq> [] \<Longrightarrow>
     concat bs ! sum_list (map length (take idx bs)) = hd (bs ! idx)"
proof (induction bs arbitrary: idx)
  case Nil
  then show ?case by simp
next
  case (Cons b bs)
  show ?case
  proof (cases idx)
    case 0
    then have "b \<noteq> []" using Cons.prems by simp
    then show ?thesis using 0 by (simp add: nth_append hd_conv_nth)
  next
    case (Suc j)
    then have "j < length bs" "bs ! j \<noteq> []" using Cons.prems by simp_all
    then have "concat bs ! sum_list (map length (take j bs)) = hd (bs ! j)"
      by (rule Cons.IH)
    then show ?thesis using Suc by (simp add: nth_append)
  qed
qed

lemma createNodes_nonempty: "createNodes cfg n level position totalSiblings parentX [] \<noteq> []"
  by (subst createNodes_unfold) simp

lemma createNodes_hd:
  "hd (createNodes cfg n level position totalSiblings parentX [])
     = flow_node cfg n level position totalSiblings parentX"
  by (subst createNodes_unfold) simp

lemma createNodes_length:
  "length (createNodes cfg n level position totalSiblings parentX []) = length (subtrees n)"
proof -
  have "length (map fn_id (createNodes cfg n level position totalSiblings parentX []))
      = length (map node_id (subtrees n))"
    by (simp only: createNodes_ids)
  then show ?thesis by simp
qed

lemma createNodes_child:
  assumes "idx < length (kids n)"
  shows "createNodes cfg n level position totalSiblings parentX [] ! child_position (kids n) idx
     = flow_node cfg (kids n ! idx) (Suc level) idx (length (kids n))
         (x_of cfg level position totalSiblings parentX)"
proof -
  define x where "x = x_of cfg level position totalSiblings parentX"
  define F where "F = (\<lambda>(j, c). createNodes cfg c (Suc level) j (length (kids n)) x [])"
  define bs where "bs = map F (enumerate 0 (kids n))"
  have len: "length bs = length (kids n)" by (simp add: bs_def)
  have nth: "bs ! idx = createNodes cfg (kids n ! idx) (Suc level) idx (length (kids n)) x []"
    using assms by (simp add: bs_def F_def nth_enumerate_eq)
  have "map length bs = map (\<lambda>(j, c). length (createNodes cfg c (Suc level) j (length (kids n)) x []))
          (enumerate 0 (kids n))"
    by (simp add: bs_def F_def case_prod_unfold)
  also have "\<dots> = map (\<lambda>c. length (subtrees c)) (kids n)"
    by (rule map_enumerate_cong) (rule createNodes_length)
  finally have lens: "map length bs = map (\<lambda>c. length (subtrees c)) (kids n)" .
  have "map length (take idx bs) = take idx (map length bs)" by (simp only: take_map)
  also have "\<dots> = map (\<lambda>c. length (subtrees c)) (take idx (kids n))"
    by (simp only: lens take_map)
  finally have pos: "child_position (kids n) idx = Suc (sum_list (map length (take idx bs)))"
    by (simp only: child_position_def)
  have "createNodes cfg n level position totalSiblings parentX []
      = flow_node cfg n level position totalSiblings parentX # concat bs"
    unfolding bs_def F_def x_def by (rule createNodes_unfold)
  then have "createNodes cfg n level position totalSiblings parentX [] ! child_position (kids n) idx
      = concat bs ! sum_list (map length (take idx bs))"
    by (simp only: pos nth_Cons_Suc)
  also have "\<dots> = hd (bs ! idx)"
    by (rule nth_concat_block) (simp_all add: len assms nth createNodes_nonempty)
  also have "\<dots> = flow_node cfg (kids n ! idx) (Suc level) idx (length (kids n)) x"
    by (simp only: nth createNodes_hd)
  finally show ?thesis by (simp only: x_def)
qed

lemma depth1_x_eq:
  assumes "idx < length (kids rootNode)"
  shows "depth1_x cfg rootNode idx = x_of cfg 1 idx (length (kids rootNode)) 0"
proof -
  have "x_of cfg 0 0 1 0 = 0" by (simp add: x_of_def)
  then show ?thesis
    using createNodes_child[OF assms, of cfg 0 0 1 0]
    by (simp add: depth1_x_def flow_node_def)
qed

subsection \<open>The claims about the layout\<close>

text \<open>
  C2. For every tree with N nodes, the layout engine computes exactly N flow nodes,
  one per node and in preorder, and exactly N - 1 edges: one edge per parent--child pair,
  directed from the parent to the child. (A value of \<open>AttackTreeNode\<close> is a finite tree;
  the ids need not be unique for this.) Here N is \<open>length (subtrees rootNode)\<close>, and the
  lists are \<^verbatim>\<open>flowNodes\<close> after \<^verbatim>\<open>createNodes(rootNode, 0, 0, 1, 0)\<close> and \<^verbatim>\<open>flowEdges\<close>
  after \<^verbatim>\<open>createEdges(rootNode)\<close>. (When these lists reach the view is C9's matter.)
\<close>

theorem layout_counts:
  "length (createNodes cfg rootNode 0 0 1 0 []) = length (subtrees rootNode)
   \<and> Suc (length (createEdges rootNode [])) = length (subtrees rootNode)
   \<and> map fn_id (createNodes cfg rootNode 0 0 1 0 []) = map node_id (subtrees rootNode)
   \<and> mset (createEdges rootNode []) = mset (parent_child_edges (subtrees rootNode))"
proof -
  have ids: "map fn_id (createNodes cfg rootNode 0 0 1 0 []) = map node_id (subtrees rootNode)"
    by (rule createNodes_ids)
  have "length (map fn_id (createNodes cfg rootNode 0 0 1 0 []))
      = length (map node_id (subtrees rootNode))"
    by (simp only: ids)
  then have len: "length (createNodes cfg rootNode 0 0 1 0 []) = length (subtrees rootNode)"
    by simp
  show ?thesis
    using len ids createEdges_length[of rootNode] createEdges_mset[of rootNode] by blast
qed

text \<open>
  C3. For every tree and every spacing configuration, the first flow node computed is the
  root's, and its position is exactly (0, 0).
\<close>

theorem root_at_origin:
  "\<exists>rest. createNodes cfg rootNode 0 0 1 0 [] =
      \<lparr> fn_id = node_id rootNode, fn_type = type_or_goal (node_type rootNode),
        position_x = 0, position_y = 0, data_label = node_label rootNode \<rparr> # rest"
  by (subst createNodes_unfold) (simp add: flow_node_def x_of_def y_of_def)

text \<open>
  C5. Every node at depth d gets the y-coordinate
  d * (verticalBase + d * verticalIncrement): the flow nodes, read as pairs of id and y,
  are the nodes of the tree in preorder, each with this value at its depth.
\<close>

theorem y_by_depth:
  "map (\<lambda>f. (fn_id f, position_y f)) (createNodes cfg rootNode 0 0 1 0 [])
     = map (\<lambda>(n, d). (node_id n, real d * (verticalBase cfg + real d * verticalIncrement cfg)))
         (with_depth 0 rootNode)"
  by (simp only: createNodes_id_y) (simp add: y_of_def)

text \<open>
  C4. For a root with k children, k at least 1, the child at index \<open>idx\<close> is placed at
  x = -totalWidth / 2 + idx * gap, where
  gap = baseWidth * level1.xGapMultiplier * max(1, k * level1.siblingFactor) and
  totalWidth = gap * (k - 1). For three children, when baseWidth * level1.xGapMultiplier is
  positive (as in the configuration of the code), the three x-coordinates are strictly
  increasing in input order and symmetric about 0.
\<close>

theorem depth1_positions:
  assumes "idx < length (kids rootNode)"
  shows "let k = length (kids rootNode);
             gap = baseWidth cfg * xGapMultiplier (level1 cfg)
                     * max 1 (real k * siblingFactor (level1 cfg));
             totalWidth = gap * (real k - 1)
         in fn_id (createNodes cfg rootNode 0 0 1 0 [] ! child_position (kids rootNode) idx)
              = node_id (kids rootNode ! idx)
          \<and> depth1_x cfg rootNode idx = - totalWidth / 2 + real idx * gap
          \<and> (k = 3 \<and> 0 < baseWidth cfg * xGapMultiplier (level1 cfg) \<longrightarrow>
               depth1_x cfg rootNode 0 < depth1_x cfg rootNode 1
               \<and> depth1_x cfg rootNode 1 < depth1_x cfg rootNode 2
               \<and> depth1_x cfg rootNode 0 = - depth1_x cfg rootNode 2
               \<and> depth1_x cfg rootNode 1 = 0)"
proof -
  define k where "k = length (kids rootNode)"
  define gap where "gap = baseWidth cfg * xGapMultiplier (level1 cfg)
                     * max 1 (real k * siblingFactor (level1 cfg))"
  have gap: "xGap_of cfg 1 k = gap" by (simp add: xGap_of_def gap_def)
  have x: "depth1_x cfg rootNode j = - (gap * (real k - 1)) / 2 + real j * gap" if "j < k" for j
    using that depth1_x_eq[of j rootNode cfg] gap by (simp add: k_def x_of_def Let_def)
  have id: "fn_id (createNodes cfg rootNode 0 0 1 0 [] ! child_position (kids rootNode) idx)
      = node_id (kids rootNode ! idx)"
    using createNodes_child[OF assms, of cfg 0 0 1 0] by (simp add: flow_node_def)
  have three: "depth1_x cfg rootNode 0 < depth1_x cfg rootNode 1
               \<and> depth1_x cfg rootNode 1 < depth1_x cfg rootNode 2
               \<and> depth1_x cfg rootNode 0 = - depth1_x cfg rootNode 2
               \<and> depth1_x cfg rootNode 1 = 0"
    if k3: "k = 3" and pos: "0 < baseWidth cfg * xGapMultiplier (level1 cfg)"
  proof -
    have "0 < max 1 (real k * siblingFactor (level1 cfg))" by simp
    then have g: "0 < gap" unfolding gap_def using pos by (rule mult_pos_pos[rotated])
    have x0: "depth1_x cfg rootNode 0 = - gap" using x[of 0] k3 by simp
    have x1: "depth1_x cfg rootNode 1 = 0" using x[of 1] k3 by simp
    have x2: "depth1_x cfg rootNode 2 = gap" using x[of 2] k3 by simp
    show ?thesis unfolding x0 x1 x2 using g by simp
  qed
  have B: "depth1_x cfg rootNode idx = - (gap * (real k - 1)) / 2 + real idx * gap"
    using assms by (intro x) (simp add: k_def)
  have C: "k = 3 \<and> 0 < baseWidth cfg * xGapMultiplier (level1 cfg) \<longrightarrow>
               depth1_x cfg rootNode 0 < depth1_x cfg rootNode 1
               \<and> depth1_x cfg rootNode 1 < depth1_x cfg rootNode 2
               \<and> depth1_x cfg rootNode 0 = - depth1_x cfg rootNode 2
               \<and> depth1_x cfg rootNode 1 = 0"
    using three by blast
  show ?thesis
    unfolding Let_def k_def[symmetric] gap_def[symmetric]
    by (intro conjI id B C)
qed

theorem depth1_positions_witness:
  "length (kids three_children) = 3
   \<and> depth1_x config three_children 0 = - 675
   \<and> depth1_x config three_children 1 = 0
   \<and> depth1_x config three_children 2 = 675
   \<and> fn_id (createNodes config three_children 0 0 1 0 [] ! child_position (kids three_children) 2) = ''a3''"
proof -
  have k: "length (kids three_children) = 3" by (simp add: three_children_def)
  have c: "0 < baseWidth config * xGapMultiplier (level1 config)" by (simp add: config_def)
  have l2: "(2::nat) < length (kids three_children)" by (simp add: k)
  have l0: "(0::nat) < length (kids three_children)" by (simp add: k)
  have l1: "(1::nat) < length (kids three_children)" by (simp add: k)
  have g: "baseWidth config * xGapMultiplier (level1 config)
             * max 1 (real (3::nat) * siblingFactor (level1 config)) = 675"
    by (simp add: config_def)
  show ?thesis
    using depth1_positions[OF l2, of config] depth1_positions[OF l0, of config]
      depth1_positions[OF l1, of config] c g
    by (simp add: Let_def k three_children_def)
qed

section \<open>Properties of the diagram exporter\<close>

lemma fold_invariant:
  assumes "Q s" and "\<And>x s. x \<in> set xs \<Longrightarrow> Q s \<Longrightarrow> Q (f x s)"
  shows "Q (fold f xs s)"
  using assms
proof (induction xs arbitrary: s)
  case Nil
  then show ?case by simp
next
  case (Cons a xs)
  have "Q (f a s)" by (rule Cons.prems(2)) (simp, rule Cons.prems(1))
  then have "Q (fold f xs (f a s))"
    by (rule Cons.IH) (rule Cons.prems(2), simp_all)
  then show ?case by simp
qed

lemma fold_prefix_invariant:
  assumes "Q ys s" and "\<And>ys x s. x \<in> set xs \<Longrightarrow> Q ys s \<Longrightarrow> Q (ys @ [x]) (f x s)"
  shows "Q (ys @ xs) (fold f xs s)"
  using assms
proof (induction xs arbitrary: ys s)
  case Nil
  then show ?case by simp
next
  case (Cons a xs)
  have "Q (ys @ [a]) (f a s)" by (rule Cons.prems(2)) (simp, rule Cons.prems(1))
  then have "Q ((ys @ [a]) @ xs) (fold f xs (f a s))"
    by (rule Cons.IH) (rule Cons.prems(2), simp_all)
  then show ?case by simp
qed

lemma fold_simulation:
  assumes "\<And>x s. x \<in> set xs \<Longrightarrow> f x (h s) = h (g x s)"
  shows "fold f xs (h s) = h (fold g xs s)"
  using assms
proof (induction xs arbitrary: s)
  case Nil
  show ?case by simp
next
  case (Cons a xs)
  have "fold f (a # xs) (h s) = fold f xs (f a (h s))" by simp
  also have "f a (h s) = h (g a s)" by (rule Cons.prems) simp
  also have "fold f xs (h (g a s)) = h (fold g xs (g a s))"
    by (rule Cons.IH) (rule Cons.prems, simp)
  finally show ?case by simp
qed

lemma declared_append [simp]: "declared (xs @ ys) = declared xs @ declared ys"
  by (induction xs rule: declared.induct) simp_all

lemma arrows_append [simp]: "arrows (xs @ ys) = arrows xs @ arrows ys"
  by (induction xs rule: arrows.induct) simp_all

text \<open>One step of the trace, by the cases of the code.\<close>

lemma trace_visited:
  "node_id n \<in> fst s \<Longrightarrow> processNode_trace n s = s"
  by (cases n) simp

lemma trace_fresh:
  "node_id n \<notin> fst s \<Longrightarrow>
     processNode_trace n s =
       fold (\<lambda>child acc. processNode_trace child (fst acc, snd acc @ [Arrow n child]))
         (kids n) (insert (node_id n) (fst s), snd s @ [NodeDecl n])"
  by (cases n) (simp add: Let_def split: option.split)

lemma trace_induct [consumes 0, case_names visited fresh]:
  assumes "\<And>n s. node_id n \<in> fst s \<Longrightarrow> P n s"
    and "\<And>n s. node_id n \<notin> fst s \<Longrightarrow>
           (\<And>c acc. c \<in> set (kids n) \<Longrightarrow> P c (fst acc, snd acc @ [Arrow n c])) \<Longrightarrow> P n s"
  shows "P n s"
proof (induction n s rule: processNode_trace.induct)
  case (1 i t l ch s)
  show ?case
  proof (cases "i \<in> fst s")
    case True
    then show ?thesis by (intro assms(1)) simp
  next
    case False
    show ?thesis
    proof (rule assms(2))
      show "node_id (AttackTreeNode i t l ch) \<notin> fst s" using False by simp
    next
      fix c and acc :: "string set \<times> statement list" assume "c \<in> set (kids (AttackTreeNode i t l ch))"
      then obtain cs where cs: "ch = Some cs" "c \<in> set cs" by (cases ch) auto
      then have "0 < length cs" by auto
      from "1.IH"[OF False refl cs(1) this cs(2)]
      show "P c (fst acc, snd acc @ [Arrow (AttackTreeNode i t l ch) c])" .
    qed
  qed
qed

lemma trace_mono: "fst s \<subseteq> fst (processNode_trace n s)"
proof (induction n s rule: trace_induct)
  case (visited n s)
  then show ?case by (simp add: trace_visited)
next
  case (fresh n s)
  define f where "f = (\<lambda>child acc. processNode_trace child (fst acc, snd acc @ [Arrow n child]))"
  have "fst s \<subseteq> fst (fold f (kids n) (insert (node_id n) (fst s), snd s @ [NodeDecl n]))"
  proof (rule fold_invariant[where Q = "\<lambda>acc. fst s \<subseteq> fst acc"])
    show "fst s \<subseteq> fst (insert (node_id n) (fst s), snd s @ [NodeDecl n])" by auto
  next
    fix c and acc :: "string set \<times> statement list" assume c: "c \<in> set (kids n)" and acc: "fst s \<subseteq> fst acc"
    have "fst acc \<subseteq> fst (f c acc)"
      unfolding f_def using fresh.IH[OF c, of acc] by simp
    then show "fst s \<subseteq> fst (f c acc)" using acc by (rule subset_trans[rotated])
  qed
  then show ?case by (simp only: trace_fresh[OF fresh.hyps] f_def)
qed

lemma trace_decl_inv: "decl_inv s \<Longrightarrow> decl_inv (processNode_trace n s)"
proof (induction n s rule: trace_induct)
  case (visited n s)
  then show ?case by (simp add: trace_visited)
next
  case (fresh n s)
  define f where "f = (\<lambda>child acc. processNode_trace child (fst acc, snd acc @ [Arrow n child]))"
  have "decl_inv (fold f (kids n) (insert (node_id n) (fst s), snd s @ [NodeDecl n]))"
  proof (rule fold_invariant[where Q = decl_inv])
    show "decl_inv (insert (node_id n) (fst s), snd s @ [NodeDecl n])"
      using fresh.prems fresh.hyps by (auto simp: decl_inv_def declared_ids_def)
  next
    fix c and acc :: "string set \<times> statement list" assume c: "c \<in> set (kids n)" and acc: "decl_inv acc"
    have "decl_inv (fst acc, snd acc @ [Arrow n c])"
      using acc by (simp add: decl_inv_def declared_ids_def)
    then show "decl_inv (f c acc)"
      unfolding f_def by (rule fresh.IH[OF c])
  qed
  then show ?case by (simp only: trace_fresh[OF fresh.hyps] f_def)
qed

lemma trace_arrows_inv:
  "node_id ` fst ` set (arrows (snd s)) \<subseteq> fst s \<Longrightarrow>
   node_id ` snd ` set (arrows (snd s)) \<subseteq> insert (node_id n) (fst s) \<Longrightarrow>
   arrows_inv (processNode_trace n s)"
proof (induction n s rule: trace_induct)
  case (visited n s)
  then show ?case by (simp add: trace_visited arrows_inv_def insert_absorb)
next
  case (fresh n s)
  define f where "f = (\<lambda>child acc. processNode_trace child (fst acc, snd acc @ [Arrow n child]))"
  define Q where "Q = (\<lambda>acc. arrows_inv acc \<and> node_id n \<in> fst acc)"
  have "Q (fold f (kids n) (insert (node_id n) (fst s), snd s @ [NodeDecl n]))"
  proof (rule fold_invariant[where Q = Q])
    show "Q (insert (node_id n) (fst s), snd s @ [NodeDecl n])"
      using fresh.prems by (auto simp: Q_def arrows_inv_def)
  next
    fix c and acc :: "string set \<times> statement list" assume c: "c \<in> set (kids n)" and acc: "Q acc"
    have 1: "node_id ` fst ` set (arrows (snd (fst acc, snd acc @ [Arrow n c])))
               \<subseteq> fst (fst acc, snd acc @ [Arrow n c])"
      using acc by (auto simp: Q_def arrows_inv_def)
    have 2: "node_id ` snd ` set (arrows (snd (fst acc, snd acc @ [Arrow n c])))
               \<subseteq> insert (node_id c) (fst (fst acc, snd acc @ [Arrow n c]))"
      using acc by (auto simp: Q_def arrows_inv_def)
    have "arrows_inv (f c acc)"
      unfolding f_def by (rule fresh.IH[OF c 1 2])
    moreover have "node_id n \<in> fst (f c acc)"
      unfolding f_def using acc trace_mono[of "(fst acc, snd acc @ [Arrow n c])" c]
      by (auto simp: Q_def)
    ultimately show "Q (f c acc)" by (simp add: Q_def)
  qed
  then show ?case by (simp only: trace_fresh[OF fresh.hyps] f_def Q_def)
qed

text \<open>
  The connections added by a call are those of the nodes it declares: one for every
  child of every declared node.
\<close>

lemma trace_arrows_count:
  "mset (arrows (snd (processNode_trace n s))) + mset (child_pairs (declared (snd s)))
     = mset (child_pairs (declared (snd (processNode_trace n s)))) + mset (arrows (snd s))"
proof (induction n s rule: trace_induct)
  case (visited n s)
  then show ?case by (simp add: trace_visited)
next
  case (fresh n s)
  define f where "f = (\<lambda>child acc. processNode_trace child (fst acc, snd acc @ [Arrow n child]))"
  define A where "A = (\<lambda>acc :: string set \<times> statement list. mset (arrows (snd acc)))"
  define D where "D = (\<lambda>acc :: string set \<times> statement list. mset (child_pairs (declared (snd acc))))"
  define s2 where "s2 = (insert (node_id n) (fst s), snd s @ [NodeDecl n])"
  define Q where "Q = (\<lambda>ys acc. A acc + D s + mset (map (Pair n) (kids n))
                          = D acc + A s + mset (map (Pair n) ys))"
  have A2: "A s2 = A s" by (simp add: A_def s2_def)
  have D2: "D s2 = D s + mset (map (Pair n) (kids n))"
    by (simp add: D_def s2_def child_pairs_def)
  have "Q ([] @ kids n) (fold f (kids n) s2)"
  proof (rule fold_prefix_invariant[where Q = Q])
    show "Q [] s2" by (simp add: Q_def A2 D2)
  next
    fix ys c and acc :: "string set \<times> statement list" assume c: "c \<in> set (kids n)" and acc: "Q ys acc"
    define acc' where "acc' = (fst acc, snd acc @ [Arrow n c])"
    have ih: "A (f c acc) + D acc' = D (f c acc) + A acc'"
      unfolding f_def A_def D_def acc'_def by (rule fresh.IH[OF c])
    have A': "A acc' = A acc + {#(n, c)#}" by (simp add: A_def acc'_def)
    have D': "D acc' = D acc" by (simp add: D_def acc'_def)
    have e1: "A (f c acc) + D acc = D (f c acc) + A acc + {#(n, c)#}"
      using ih by (simp add: A' D')
    have e2: "A acc + D s + mset (map (Pair n) (kids n))
                = D acc + A s + mset (map (Pair n) ys)"
      using acc by (simp only: Q_def)
    have "(A (f c acc) + D acc) + (A acc + D s + mset (map (Pair n) (kids n)))
        = (D (f c acc) + A acc + {#(n, c)#}) + (D acc + A s + mset (map (Pair n) ys))"
      by (simp only: e1 e2)
    then have "(A (f c acc) + D s + mset (map (Pair n) (kids n))) + (A acc + D acc)
             = (D (f c acc) + A s + mset (map (Pair n) (ys @ [c]))) + (A acc + D acc)"
      by (simp add: ac_simps)
    then show "Q (ys @ [c]) (f c acc)"
      unfolding Q_def by (rule add_right_imp_eq)
  qed
  then have "A (fold f (kids n) s2) + D s = D (fold f (kids n) s2) + A s"
    by (simp add: Q_def)
  then show ?case by (simp only: trace_fresh[OF fresh.hyps] f_def A_def D_def s2_def)
qed

text \<open>The text built by \<open>processNode\<close> is the rendering of the statements of the trace.\<close>

lemma processNode_render:
  "processNode n (state_of txt s) = state_of txt (processNode_trace n s)"
proof (induction n s rule: processNode_trace.induct)
  case (1 i t l ch s)
  define n where "n = AttackTreeNode i t l ch"
  show ?case
  proof (cases "i \<in> fst s")
    case True
    then show ?thesis by (simp add: state_of_def)
  next
    case False
    define s2 where "s2 = (insert i (fst s), snd s @ [NodeDecl n])"
    have start: "(state_of txt s)\<lparr> processedNodeIds := insert i (processedNodeIds (state_of txt s)),
                    mermaidContent := mermaidContent (state_of txt s) @ node_line i l \<rparr>
                 = state_of txt s2"
      by (simp add: state_of_def s2_def n_def)
    show ?thesis
    proof (cases ch)
      case None
      then show ?thesis using False start by (simp add: state_of_def s2_def n_def)
    next
      case (Some cs)
      define f where "f = (\<lambda>child acc. processNode child
                 (acc\<lparr> mermaidContent := mermaidContent acc @ edge_line i (node_id child) \<rparr>))"
      define g where "g = (\<lambda>child acc. processNode_trace child (fst acc, snd acc @ [Arrow n child]))"
      have sim: "fold f cs (state_of txt s2) = state_of txt (fold g cs s2)"
      proof (rule fold_simulation)
        fix c and acc :: "string set \<times> statement list" assume c: "c \<in> set cs"
        then have pos: "0 < length cs" by auto
        have "(state_of txt acc)\<lparr> mermaidContent := mermaidContent (state_of txt acc) @ edge_line i (node_id c) \<rparr>
              = state_of txt (fst acc, snd acc @ [Arrow n c])"
          by (simp add: state_of_def n_def)
        then show "f c (state_of txt acc) = state_of txt (g c acc)"
          unfolding f_def g_def n_def
          using "1.IH"[OF False refl Some pos c, of acc] by simp
      qed
      have lhs: "processNode (AttackTreeNode i t l ch) (state_of txt s)
                  = (if length cs > 0 then fold f cs (state_of txt s2) else state_of txt s2)"
        using False Some start by (simp add: f_def Let_def state_of_def)
      have rhs: "processNode_trace (AttackTreeNode i t l ch) s
                  = (if length cs > 0 then fold g cs s2 else s2)"
        using False Some by (simp add: g_def Let_def s2_def n_def)
      show ?thesis by (simp only: lhs rhs sim if_distrib[of "state_of txt"])
    qed
  qed
qed

lemma generate_render:
  "generateSimplifiedMermaidDiagram nodes
     = (''graph TD'' @ [CHR 0x0A]) @ concat (map render (export_statements nodes))"
proof (cases "find_root nodes")
  case None
  then show ?thesis
    by (simp add: generateSimplifiedMermaidDiagram_def export_statements_def)
next
  case (Some r)
  have s0: "\<lparr> mermaidContent = ''graph TD'' @ [CHR 0x0A], processedNodeIds = {} \<rparr>
      = state_of (''graph TD'' @ [CHR 0x0A]) ({}, [])"
    by (simp add: state_of_def)
  have "mermaidContent (processNode r (state_of (''graph TD'' @ [CHR 0x0A]) ({}, [])))
      = (''graph TD'' @ [CHR 0x0A]) @ concat (map render (snd (processNode_trace r ({}, []))))"
    by (simp only: processNode_render) (simp add: state_of_def)
  then show ?thesis
    using Some by (simp only: generateSimplifiedMermaidDiagram_def export_statements_def
        Let_def s0 option.case)
qed

lemma export_cases:
  obtains "find_root nodes = None" "export_statements nodes = []"
  | r where "find_root nodes = Some r"
      "export_statements nodes = snd (processNode_trace r ({}, []))"
  by (cases "find_root nodes") (simp_all add: export_statements_def)

lemma export_distinct: "distinct (declared_ids (export_statements nodes))"
proof (cases nodes rule: export_cases)
  case 1
  then show ?thesis by (simp add: declared_ids_def)
next
  case (2 r)
  have "decl_inv ({}, [])" by (simp add: decl_inv_def declared_ids_def)
  then have "decl_inv (processNode_trace r ({}, []))" by (rule trace_decl_inv)
  then show ?thesis using 2 by (simp add: decl_inv_def)
qed

lemma export_arrows:
  "mset (arrows (export_statements nodes))
     = mset (child_pairs (declared (export_statements nodes)))"
proof (cases nodes rule: export_cases)
  case 1
  then show ?thesis by (simp add: child_pairs_def)
next
  case (2 r)
  show ?thesis
    using trace_arrows_count[of r "({}, [])"] 2 by (simp add: child_pairs_def)
qed

lemma export_arrows_declared:
  "node_id ` fst ` set (arrows (export_statements nodes)) \<subseteq> set (declared_ids (export_statements nodes))
   \<and> node_id ` snd ` set (arrows (export_statements nodes)) \<subseteq> set (declared_ids (export_statements nodes))"
proof (cases nodes rule: export_cases)
  case 1
  then show ?thesis by simp
next
  case (2 r)
  have "decl_inv ({}, [])" by (simp add: decl_inv_def declared_ids_def)
  then have d: "decl_inv (processNode_trace r ({}, []))" by (rule trace_decl_inv)
  have a: "arrows_inv (processNode_trace r ({}, []))"
    by (rule trace_arrows_inv) simp_all
  show ?thesis using a d 2 by (simp add: arrows_inv_def decl_inv_def)
qed

lemma export_diamond:
  "generateSimplifiedMermaidDiagram [diamond] =
     ''graph TD'' @ [CHR 0x0A]
     @ node_line ''a'' ''A'' @ edge_line ''a'' ''b''
     @ node_line ''b'' ''B'' @ edge_line ''b'' ''d''
     @ node_line ''d'' ''D'' @ edge_line ''d'' ''a''
     @ edge_line ''a'' ''c''
     @ node_line ''c'' ''C'' @ edge_line ''c'' ''d''"
  by (simp add: generateSimplifiedMermaidDiagram_def find_root_def diamond_def)

lemma processAttackTreeData_single:
  assumes "kids rootNode = []"
  shows "processAttackTreeData (rootNode # rest) st = st"
proof -
  have "createEdges rootNode [] = []"
    by (subst createEdges_unfold) (simp add: assms)
  then show ?thesis by (simp add: processAttackTreeData_def Let_def)
qed

lemma processAttackTreeData_children:
  assumes "kids rootNode \<noteq> []"
  shows "processAttackTreeData (rootNode # rest) st
     = st\<lparr> st_nodes := createNodes config rootNode 0 0 1 0 [],
           st_edges := createEdges rootNode [] \<rparr>"
proof -
  have "createEdges rootNode [] \<noteq> []"
    using assms by (subst createEdges_unfold) (cases "kids rootNode", simp_all)
  moreover have "createNodes config rootNode 0 0 1 0 [] \<noteq> []" by (rule createNodes_nonempty)
  ultimately show ?thesis by (simp add: processAttackTreeData_def Let_def)
qed

lemma node_id_map_types [simp]: "node_id (map_types f n) = node_id n"
  by (cases n) simp

lemma processNode_map_types: "processNode (map_types f n) s = processNode n s"
proof (induction n s rule: processNode.induct)
  case (1 i t l ch s)
  show ?case
  proof (cases "i \<in> processedNodeIds s")
    case True
    then show ?thesis by simp
  next
    case False
    define s2 where "s2 = s\<lparr> processedNodeIds := insert i (processedNodeIds s),
                             mermaidContent := mermaidContent s @ node_line i l \<rparr>"
    show ?thesis
    proof (cases ch)
      case None
      then show ?thesis by simp
    next
      case (Some cs)
      define step where "step = (\<lambda>child acc. processNode child
                 (acc\<lparr> mermaidContent := mermaidContent acc @ edge_line i (node_id child) \<rparr>))"
      have "fold step (map (map_types f) cs) s2 = fold (step \<circ> map_types f) cs s2"
        by (simp only: fold_map)
      also have "\<dots> = fold step cs s2"
      proof (rule fold_cong[OF refl refl])
        fix c assume c: "c \<in> set cs"
        then have pos: "0 < length cs" by auto
        show "(step \<circ> map_types f) c = step c"
        proof
          fix acc
          show "(step \<circ> map_types f) c acc = step c acc"
            unfolding step_def o_def
            using "1.IH"[OF False refl refl Some pos c, of acc] by simp
        qed
      qed
      finally have "fold step (map (map_types f) cs) s2 = fold step cs s2" .
      then show ?thesis using False Some by (simp add: Let_def step_def s2_def)
    qed
  qed
qed

lemma find_root_singleton: "find_root [r] = Some r"
  by (simp add: find_root_def)

lemma generate_from_root:
  "find_root nodes = Some r \<Longrightarrow>
     generateSimplifiedMermaidDiagram nodes = generateSimplifiedMermaidDiagram [r]"
  by (simp add: generateSimplifiedMermaidDiagram_def find_root_singleton)

lemma find_root_first_goal:
  assumes "node_type g = Some ''goal''" "\<And>m. m \<in> set pre \<Longrightarrow> node_type m \<noteq> Some ''goal''"
  shows "find_root (pre @ g # post) = Some g"
proof -
  have "find (\<lambda>node. node_type node = Some ''goal'') (pre @ g # post) = Some g"
    using assms by (induction pre) simp_all
  then show ?thesis by (simp add: find_root_def)
qed

lemma find_root_no_goal:
  assumes "\<And>m. m \<in> set (n # rest) \<Longrightarrow> node_type m \<noteq> Some ''goal''"
  shows "find_root (n # rest) = Some n"
proof -
  have "find (\<lambda>node. node_type node = Some ''goal'') (n # rest) = None"
    using assms by (simp only: find_None_iff) blast
  then show ?thesis by (simp add: find_root_def)
qed

lemma find_root_kind:
  assumes "find_root nodes = Some r"
  shows "node_type r = Some ''goal''
         \<or> (r = hd nodes \<and> (\<forall>m\<in>set nodes. node_type m \<noteq> Some ''goal''))"
proof (cases "find (\<lambda>node. node_type node = Some ''goal'') nodes")
  case None
  then have "\<forall>m\<in>set nodes. node_type m \<noteq> Some ''goal''" by (simp add: find_None_iff)
  moreover have "r = hd nodes" using assms None by (cases nodes) (simp_all add: find_root_def)
  ultimately show ?thesis by blast
next
  case (Some g)
  then have "node_type g = Some ''goal''" by (auto simp: find_Some_iff)
  moreover have "r = g" using assms Some by (simp add: find_root_def)
  ultimately show ?thesis by simp
qed

lemma processAttackTreeData_first:
  "processAttackTreeData (n # rest) st = processAttackTreeData [n] st"
  by (simp add: processAttackTreeData_def)

subsection \<open>Runs on a store\<close>

lemma node_id_unfold [simp]: "node_id (unfold k store r) = obj_id (store r)"
  by (cases k) simp_all

lemma node_type_unfold [simp]: "node_type (unfold k store r) = obj_type (store r)"
  by (cases k) simp_all

lemma fold_option_fold:
  assumes "fold_option f xs s = Some s'"
    and "\<And>x a a'. x \<in> set xs \<Longrightarrow> f x a = Some a' \<Longrightarrow> g (h x) a = a'"
  shows "fold g (map h xs) s = s'"
  using assms
proof (induction xs arbitrary: s)
  case Nil
  then show ?case by simp
next
  case (Cons x xs)
  from Cons.prems(1) obtain a where a: "f x s = Some a" and rest: "fold_option f xs a = Some s'"
    by (auto split: option.splits)
  have "g (h x) s = a" using a by (intro Cons.prems(2)) simp_all
  moreover have "fold g (map h xs) a = s'"
    using rest by (rule Cons.IH) (rule Cons.prems(2), simp_all)
  ultimately show ?case by simp
qed

text \<open>A run on a graph that returns is the run on the tree the graph unfolds to.\<close>

lemma processNode_store_unfold:
  "processNode_store k store r s = Some s' \<Longrightarrow> processNode (unfold k store r) s = s'"
proof (induction k arbitrary: r s s')
  case 0
  then show ?case by (simp add: processNode_store.simps)
next
  case (Suc k)
  define i where "i = obj_id (store r)"
  show ?case
  proof (cases "i \<in> processedNodeIds s")
    case True
    then show ?thesis using Suc.prems by (simp add: i_def processNode_store.simps)
  next
    case False
    define s2 where "s2 = s\<lparr> processedNodeIds := insert i (processedNodeIds s),
                             mermaidContent := mermaidContent s @ node_line i (obj_label (store r)) \<rparr>"
    show ?thesis
    proof (cases "obj_children (store r)")
      case None
      then show ?thesis using Suc.prems False by (simp add: i_def Let_def processNode_store.simps)
    next
      case (Some cs)
      show ?thesis
      proof (cases "cs = []")
        case True
        then show ?thesis using Suc.prems False Some by (simp add: i_def Let_def processNode_store.simps)
      next
        case ne: False
        define f where "f = (\<lambda>child acc. processNode_store k store child
                 (acc\<lparr> mermaidContent := mermaidContent acc @ edge_line i (obj_id (store child)) \<rparr>))"
        define g where "g = (\<lambda>child acc. processNode child
                 (acc\<lparr> mermaidContent := mermaidContent acc @ edge_line i (node_id child) \<rparr>))"
        have run: "fold_option f cs s2 = Some s'"
          using Suc.prems False Some ne by (simp add: i_def Let_def f_def s2_def processNode_store.simps)
        have "fold g (map (unfold k store) cs) s2 = s'"
        proof (rule fold_option_fold[OF run])
          fix c a a' assume "f c a = Some a'"
          then show "g (unfold k store c) a = a'"
            unfolding f_def g_def using Suc.IH by simp
        qed
        then show ?thesis using False Some ne by (simp add: i_def Let_def g_def s2_def)
      qed
    qed
  qed
qed


lemma fold_option_mono:
  assumes "fold_option f xs s = Some s'"
    and "\<And>x a a'. x \<in> set xs \<Longrightarrow> f x a = Some a' \<Longrightarrow> f' x a = Some a'"
  shows "fold_option f' xs s = Some s'"
  using assms
proof (induction xs arbitrary: s)
  case Nil
  then show ?case by simp
next
  case (Cons x xs)
  from Cons.prems(1) obtain a where a: "f x s = Some a" and rest: "fold_option f xs a = Some s'"
    by (auto split: option.splits)
  have "f' x s = Some a" using a by (intro Cons.prems(2)) simp_all
  moreover have "fold_option f' xs a = Some s'"
    using rest by (rule Cons.IH) (rule Cons.prems(2), simp_all)
  ultimately show ?case by simp
qed

text \<open>More fuel does not change a run that returns.\<close>

lemma processNode_store_Suc:
  "processNode_store k store r s = Some s' \<Longrightarrow> processNode_store (Suc k) store r s = Some s'"
proof (induction k arbitrary: r s s')
  case 0
  then show ?case by (simp add: processNode_store.simps)
next
  case (Suc k)
  define i where "i = obj_id (store r)"
  show ?case
  proof (cases "i \<in> processedNodeIds s")
    case True
    then show ?thesis using Suc.prems by (simp add: i_def processNode_store.simps)
  next
    case False
    define s2 where "s2 = s\<lparr> processedNodeIds := insert i (processedNodeIds s),
                             mermaidContent := mermaidContent s @ node_line i (obj_label (store r)) \<rparr>"
    define f where "f = (\<lambda>k child acc. processNode_store k store child
                 (acc\<lparr> mermaidContent := mermaidContent acc @ edge_line i (obj_id (store child)) \<rparr>))"
    have unfold_run: "processNode_store (Suc j) store r s =
        (case obj_children (store r) of None \<Rightarrow> Some s2
         | Some cs \<Rightarrow> if length cs > 0 then fold_option (f j) cs s2 else Some s2)" for j
      using False by (simp add: i_def Let_def f_def s2_def processNode_store.simps split: option.split)
    show ?thesis
    proof (cases "obj_children (store r)")
      case None
      then show ?thesis using Suc.prems by (simp only: unfold_run option.case)
    next
      case (Some cs)
      show ?thesis
      proof (cases "cs = []")
        case True
        then show ?thesis using Suc.prems Some by (simp add: unfold_run)
      next
        case ne: False
        have run: "fold_option (f k) cs s2 = Some s'"
          using Suc.prems Some ne by (simp add: unfold_run)
        have "fold_option (f (Suc k)) cs s2 = Some s'"
        proof (rule fold_option_mono[OF run])
          fix c a a' assume "f k c a = Some a'"
          then show "f (Suc k) c a = Some a'" unfolding f_def by (rule Suc.IH)
        qed
        then show ?thesis using Some ne by (simp add: unfold_run)
      qed
    qed
  qed
qed

lemma processNode_store_mono:
  "k \<le> k' \<Longrightarrow> processNode_store k store r s = Some s' \<Longrightarrow>
     processNode_store k' store r s = Some s'"
  by (induction k' rule: dec_induct) (simp_all add: processNode_store_Suc)

lemma processNode_visited_mono: "processedNodeIds s \<subseteq> processedNodeIds (processNode n s)"
proof -
  have s: "s = state_of (mermaidContent s) (processedNodeIds s, [])"
    by (simp add: state_of_def)
  have "processedNodeIds (processNode n (state_of (mermaidContent s) (processedNodeIds s, [])))
      = fst (processNode_trace n (processedNodeIds s, []))"
    by (simp only: processNode_render) (simp add: state_of_def)
  then have "processedNodeIds (processNode n s) = fst (processNode_trace n (processedNodeIds s, []))"
    using s by simp
  then show ?thesis using trace_mono[of "(processedNodeIds s, [])" n] by simp
qed

lemma processNode_store_visited_mono:
  assumes "processNode_store k store r s = Some s'"
  shows "processedNodeIds s \<subseteq> processedNodeIds s'"
  using processNode_store_unfold[OF assms] processNode_visited_mono[of s "unfold k store r"]
  by simp

text \<open>
  With finitely many ids in the store, every run returns for enough fuel: a call that
  does not return at once adds an id to the processed ones.
\<close>

lemma processNode_store_returns:
  assumes fin: "finite I" and ids: "\<And>r. obj_id (store r) \<in> I"
  shows "\<exists>k s'. processNode_store k store r s = Some s'"
proof (induction "card (I - processedNodeIds s)" arbitrary: r s rule: less_induct)
  case less
  define i where "i = obj_id (store r)"
  show ?case
  proof (cases "i \<in> processedNodeIds s")
    case True
    then have "processNode_store (Suc 0) store r s = Some s" by (simp add: i_def processNode_store.simps)
    then show ?thesis by blast
  next
    case False
    define s2 where "s2 = s\<lparr> processedNodeIds := insert i (processedNodeIds s),
                             mermaidContent := mermaidContent s @ node_line i (obj_label (store r)) \<rparr>"
    define f where "f = (\<lambda>k child acc. processNode_store k store child
                 (acc\<lparr> mermaidContent := mermaidContent acc @ edge_line i (obj_id (store child)) \<rparr>))"
    have unfold_run: "processNode_store (Suc j) store r s =
        (case obj_children (store r) of None \<Rightarrow> Some s2
         | Some cs \<Rightarrow> if length cs > 0 then fold_option (f j) cs s2 else Some s2)" for j
      using False by (simp add: i_def Let_def f_def s2_def processNode_store.simps split: option.split)
    have "i \<in> I - processedNodeIds s" using False ids by (simp add: i_def)
    then have "I - processedNodeIds s2 \<subset> I - processedNodeIds s"
      by (auto simp: s2_def)
    then have smaller: "card (I - processedNodeIds s2) < card (I - processedNodeIds s)"
      using fin by (intro psubset_card_mono) simp_all
    have children: "\<exists>k a. fold_option (f k) cs acc = Some a"
      if "processedNodeIds s2 \<subseteq> processedNodeIds acc" for cs acc
      using that
    proof (induction cs arbitrary: acc)
      case Nil
      show ?case by simp
    next
      case (Cons c cs)
      define acc' where "acc' = acc\<lparr> mermaidContent := mermaidContent acc
                                    @ edge_line i (obj_id (store c)) \<rparr>"
      have "I - processedNodeIds acc' \<subseteq> I - processedNodeIds s2"
        using Cons.prems by (auto simp: acc'_def)
      then have "card (I - processedNodeIds acc') \<le> card (I - processedNodeIds s2)"
        using fin by (intro card_mono) simp_all
      then have "card (I - processedNodeIds acc') < card (I - processedNodeIds s)"
        using smaller by simp
      then obtain k1 a1 where k1: "processNode_store k1 store c acc' = Some a1"
        using less.hyps by blast
      have "processedNodeIds acc' \<subseteq> processedNodeIds a1"
        using k1 by (rule processNode_store_visited_mono)
      then have "processedNodeIds s2 \<subseteq> processedNodeIds a1"
        using Cons.prems by (auto simp: acc'_def)
      then obtain k2 a where k2: "fold_option (f k2) cs a1 = Some a"
        using Cons.IH by blast
      define k where "k = max k1 k2"
      have "processNode_store k store c acc' = Some a1"
        using k1 by (rule processNode_store_mono[rotated]) (simp add: k_def)
      then have head: "f k c acc = Some a1" by (simp add: f_def acc'_def)
      have "fold_option (f k) cs a1 = Some a"
      proof (rule fold_option_mono[OF k2])
        fix x b b' assume "f k2 x b = Some b'"
        then show "f k x b = Some b'"
          unfolding f_def by (rule processNode_store_mono[rotated]) (simp add: k_def)
      qed
      then have "fold_option (f k) (c # cs) acc = Some a" using head by simp
      then show ?case by blast
    qed
    show ?thesis
    proof (cases "obj_children (store r)")
      case None
      then have "processNode_store (Suc 0) store r s = Some s2" by (simp only: unfold_run option.case)
      then show ?thesis by blast
    next
      case (Some cs)
      obtain k a where "fold_option (f k) cs s2 = Some a"
        using children[of s2 cs] by blast
      then have "processNode_store (Suc k) store r s = Some (if length cs > 0 then a else s2)"
        using Some by (simp add: unfold_run)
      then show ?thesis by blast
    qed
  qed
qed

lemma find_map_option: "find P (map h xs) = map_option h (find (\<lambda>x. P (h x)) xs)"
  by (induction xs) simp_all

lemma find_root_unfold:
  "find_root (map (unfold k store) nodes)
     = map_option (unfold k store)
         (case find (\<lambda>node. obj_type (store node) = Some ''goal'') nodes of
            Some r \<Rightarrow> Some r
          | None \<Rightarrow> (case nodes of [] \<Rightarrow> None | n # _ \<Rightarrow> Some n))"
  by (simp add: find_root_def find_map_option split: option.split list.split)

lemma generate_store_returns:
  assumes "finite (range (\<lambda>r. obj_id (store r)))"
  shows "\<exists>fuel. \<forall>k\<ge>fuel. generate_store k store nodes
           = Some (generateSimplifiedMermaidDiagram (map (unfold k store) nodes))"
proof -
  define s0 where "s0 = \<lparr> mermaidContent = ''graph TD'' @ [CHR 0x0A], processedNodeIds = {} \<rparr>"
  define root where "root = (case find (\<lambda>node. obj_type (store node) = Some ''goal'') nodes of
            Some r \<Rightarrow> Some r
          | None \<Rightarrow> (case nodes of [] \<Rightarrow> None | n # _ \<Rightarrow> Some n))"
  have tree_root: "find_root (map (unfold k store) nodes) = map_option (unfold k store) root" for k
    by (simp only: root_def find_root_unfold)
  show ?thesis
  proof (cases root)
    case None
    have "generate_store k store nodes
           = Some (generateSimplifiedMermaidDiagram (map (unfold k store) nodes))" for k
      using None tree_root[of k]
      by (simp add: generate_store_def generateSimplifiedMermaidDiagram_def root_def[symmetric])
    then show ?thesis by blast
  next
    case (Some r)
    obtain k0 s' where k0: "processNode_store k0 store r s0 = Some s'"
      using processNode_store_returns[OF assms, of store r s0] by auto
    have "generate_store k store nodes
           = Some (generateSimplifiedMermaidDiagram (map (unfold k store) nodes))"
      if "k \<ge> k0" for k
    proof -
      have run: "processNode_store k store r s0 = Some s'"
        using that k0 by (rule processNode_store_mono)
      then have "processNode (unfold k store r) s0 = s'" by (rule processNode_store_unfold)
      then show ?thesis
        using Some tree_root[of k] run unfolding s0_def
        by (simp add: generate_store_def generateSimplifiedMermaidDiagram_def
            root_def[symmetric])
    qed
    then show ?thesis by blast
  qed
qed

subsection \<open>The claims about the exporter\<close>

text \<open>
  C7. For every input, also one in which an id is reached along several paths, the
  exporter returns and no two node declarations of its text have the same id. On a list
  of parsed nodes (a finite tree, where an id may repeat under two parents or below
  itself) \<open>processNode\<close> is a total function; its text is the header followed by the
  rendering of the statements it makes, and the ids of the declarations among them are
  pairwise distinct. On a store with finitely many ids, where objects may be shared and
  references may form cycles, the run returns for all sufficient fuel, and what it returns
  is again the rendering of statements whose declarations have pairwise distinct ids (those
  of the tree the store unfolds to). The text is a function of the input alone: every call
  starts from a fresh text and a fresh empty set of processed ids, so repeated calls give
  the same text.
\<close>

theorem export_no_duplicate_declarations:
  "generateSimplifiedMermaidDiagram nodes
     = ''graph TD'' @ [CHR 0x0A] @ concat (map render (export_statements nodes))
   \<and> distinct (declared_ids (export_statements nodes))
   \<and> (finite (range (\<lambda>r. obj_id (store r))) \<longrightarrow>
        (\<exists>fuel. \<forall>k\<ge>fuel.
           generate_store k store refs
             = Some (''graph TD'' @ [CHR 0x0A]
                     @ concat (map render (export_statements (map (unfold k store) refs))))
           \<and> distinct (declared_ids (export_statements (map (unfold k store) refs)))))"
proof -
  have rendered: "generateSimplifiedMermaidDiagram ns
     = ''graph TD'' @ [CHR 0x0A] @ concat (map render (export_statements ns))" for ns
    using generate_render[of ns] by simp
  have graph: "\<exists>fuel. \<forall>k\<ge>fuel.
           generate_store k store refs
             = Some (''graph TD'' @ [CHR 0x0A]
                     @ concat (map render (export_statements (map (unfold k store) refs))))
           \<and> distinct (declared_ids (export_statements (map (unfold k store) refs)))"
    if fin: "finite (range (\<lambda>r. obj_id (store r)))"
  proof -
    obtain fuel where "\<forall>k\<ge>fuel. generate_store k store refs
           = Some (generateSimplifiedMermaidDiagram (map (unfold k store) refs))"
      using generate_store_returns[OF fin, of refs] by blast
    then have "\<forall>k\<ge>fuel.
           generate_store k store refs
             = Some (''graph TD'' @ [CHR 0x0A]
                     @ concat (map render (export_statements (map (unfold k store) refs))))
           \<and> distinct (declared_ids (export_statements (map (unfold k store) refs)))"
      by (simp only: rendered export_distinct simp_thms)
    then show ?thesis by blast
  qed
  show ?thesis using rendered[of nodes] export_distinct[of nodes] graph by blast
qed

theorem export_no_duplicate_declarations_witness:
  "finite (range (\<lambda>r. obj_id (two_cycle r)))
   \<and> (\<exists>fuel. \<forall>k\<ge>fuel.
           generate_store k two_cycle [0]
             = Some (''graph TD'' @ [CHR 0x0A]
                     @ concat (map render (export_statements (map (unfold k two_cycle) [0]))))
           \<and> distinct (declared_ids (export_statements (map (unfold k two_cycle) [0]))))
   \<and> generate_store (Suc (Suc (Suc 0))) two_cycle [0]
        = Some (''graph TD'' @ [CHR 0x0A]
                @ node_line ''a'' ''A'' @ edge_line ''a'' ''b''
                @ node_line ''b'' ''B'' @ edge_line ''b'' ''a''
                @ edge_line ''a'' ''b'')"
proof -
  have "range (\<lambda>r. obj_id (two_cycle r)) \<subseteq> {''a'', ''b''}"
    by (auto simp: two_cycle_def split: if_splits)
  then have fin: "finite (range (\<lambda>r. obj_id (two_cycle r)))"
    by (rule finite_subset) simp
  have run: "generate_store (Suc (Suc (Suc 0))) two_cycle [0]
        = Some (''graph TD'' @ [CHR 0x0A]
                @ node_line ''a'' ''A'' @ edge_line ''a'' ''b''
                @ node_line ''b'' ''B'' @ edge_line ''b'' ''a''
                @ edge_line ''a'' ''b'')"
    by (simp add: generate_store_def processNode_store.simps two_cycle_def)
  show ?thesis
    using export_no_duplicate_declarations[of "[]" two_cycle "[0]"] fin run by blast
qed

text \<open>
  C10. The set of processed ids suppresses repeated declarations only, not connections.
  The text of the exporter is the header line followed by one line for each statement it
  makes: for a declaration the line \<^verbatim>\<open>    id["label"]\<close>, for a connection the line
  \<^verbatim>\<open>    parentId --> childId\<close>, each ended by a line feed. The exporter makes one
  connection for every child of every node it declares (as multisets, the connections are
  the parent--child pairs of the declared nodes), also when the child's id has been
  processed before; the target of every connection is a declared id, and every declared
  id is declared once. The same holds on a store with shared children and cycles, where
  the run returns the text of the tree the store unfolds to.
\<close>

theorem export_edges_per_encounter:
  "mset (arrows (export_statements nodes))
     = mset (child_pairs (declared (export_statements nodes)))
   \<and> node_id ` snd ` set (arrows (export_statements nodes))
       \<subseteq> set (declared_ids (export_statements nodes))
   \<and> distinct (declared_ids (export_statements nodes))
   \<and> generateSimplifiedMermaidDiagram nodes
       = ''graph TD'' @ [CHR 0x0A] @ concat (map render (export_statements nodes))
   \<and> render (NodeDecl n)
       = ''    '' @ node_id n @ ''['' @ [CHR 0x22]
         @ map (\<lambda>c. if c = CHR 0x22 then CHR 0x27 else c) (node_label n)
         @ [CHR 0x22] @ '']'' @ [CHR 0x0A]
   \<and> render (Arrow p c) = ''    '' @ node_id p @ '' --> '' @ node_id c @ [CHR 0x0A]
   \<and> (finite (range (\<lambda>r. obj_id (store r))) \<longrightarrow>
        (\<exists>fuel. \<forall>k\<ge>fuel.
           generate_store k store refs
             = Some (generateSimplifiedMermaidDiagram (map (unfold k store) refs))))"
proof -
  have rendered: "generateSimplifiedMermaidDiagram nodes
       = ''graph TD'' @ [CHR 0x0A] @ concat (map render (export_statements nodes))"
    using generate_render[of nodes] by simp
  have decl_line: "render (NodeDecl n)
       = ''    '' @ node_id n @ ''['' @ [CHR 0x22]
         @ map (\<lambda>c. if c = CHR 0x22 then CHR 0x27 else c) (node_label n)
         @ [CHR 0x22] @ '']'' @ [CHR 0x0A]"
    by (simp only: render.simps node_line_def replace_quotes_def)
  have arrow_line: "render (Arrow p c) = ''    '' @ node_id p @ '' --> '' @ node_id c @ [CHR 0x0A]"
    by (simp only: render.simps edge_line_def)
  show ?thesis
    using export_arrows[of nodes] export_arrows_declared[of nodes] export_distinct[of nodes]
      rendered decl_line arrow_line generate_store_returns[of store refs]
    by blast
qed

theorem export_edges_per_encounter_witness:
  "finite (range (\<lambda>r. obj_id (two_cycle r)))
   \<and> (\<exists>fuel. \<forall>k\<ge>fuel.
           generate_store k two_cycle [0]
             = Some (generateSimplifiedMermaidDiagram (map (unfold k two_cycle) [0])))
   \<and> generateSimplifiedMermaidDiagram [unfold (Suc (Suc 0)) two_cycle 0]
        = ''graph TD'' @ [CHR 0x0A]
          @ ''    a['' @ [CHR 0x22] @ ''A'' @ [CHR 0x22] @ '']'' @ [CHR 0x0A]
          @ ''    a --> b'' @ [CHR 0x0A] @ ''    b['' @ [CHR 0x22] @ ''B'' @ [CHR 0x22]
          @ '']'' @ [CHR 0x0A] @ ''    b --> a'' @ [CHR 0x0A] @ ''    a --> b''
          @ [CHR 0x0A]
   \<and> generateSimplifiedMermaidDiagram [diamond]
        = ''graph TD'' @ [CHR 0x0A]
          @ ''    a['' @ [CHR 0x22] @ ''A'' @ [CHR 0x22] @ '']'' @ [CHR 0x0A]
          @ ''    a --> b'' @ [CHR 0x0A] @ ''    b['' @ [CHR 0x22] @ ''B'' @ [CHR 0x22]
          @ '']'' @ [CHR 0x0A] @ ''    b --> d'' @ [CHR 0x0A] @ ''    d['' @ [CHR 0x22]
          @ ''D'' @ [CHR 0x22] @ '']'' @ [CHR 0x0A] @ ''    d --> a'' @ [CHR 0x0A]
          @ ''    a --> c'' @ [CHR 0x0A] @ ''    c['' @ [CHR 0x22] @ ''C'' @ [CHR 0x22]
          @ '']'' @ [CHR 0x0A] @ ''    c --> d'' @ [CHR 0x0A]"
proof -
  have "range (\<lambda>r. obj_id (two_cycle r)) \<subseteq> {''a'', ''b''}"
    by (auto simp: two_cycle_def split: if_splits)
  then have fin: "finite (range (\<lambda>r. obj_id (two_cycle r)))"
    by (rule finite_subset) simp
  have cycle_stmts: "export_statements [unfold (Suc (Suc 0)) two_cycle 0]
        = [NodeDecl (unfold (Suc (Suc 0)) two_cycle 0),
           Arrow (unfold (Suc (Suc 0)) two_cycle 0) (unfold (Suc 0) two_cycle 1),
           NodeDecl (unfold (Suc 0) two_cycle 1),
           Arrow (unfold (Suc 0) two_cycle 1) (unfold 0 two_cycle 0),
           Arrow (unfold (Suc (Suc 0)) two_cycle 0) (unfold (Suc 0) two_cycle 1)]"
    by (simp add: export_statements_def find_root_def two_cycle_def)
  have run: "generateSimplifiedMermaidDiagram [unfold (Suc (Suc 0)) two_cycle 0]
        = ''graph TD'' @ [CHR 0x0A]
          @ ''    a['' @ [CHR 0x22] @ ''A'' @ [CHR 0x22] @ '']'' @ [CHR 0x0A]
          @ ''    a --> b'' @ [CHR 0x0A] @ ''    b['' @ [CHR 0x22] @ ''B'' @ [CHR 0x22]
          @ '']'' @ [CHR 0x0A] @ ''    b --> a'' @ [CHR 0x0A] @ ''    a --> b''
          @ [CHR 0x0A]"
    using export_edges_per_encounter[of "[unfold (Suc (Suc 0)) two_cycle 0]"
        "unfold (Suc 0) two_cycle 1" "unfold 0 two_cycle 0" "unfold 0 two_cycle 0" two_cycle "[0]"]
      cycle_stmts
    by (simp add: two_cycle_def node_line_def edge_line_def replace_quotes_def)
  have dia: "generateSimplifiedMermaidDiagram [diamond]
        = ''graph TD'' @ [CHR 0x0A]
          @ ''    a['' @ [CHR 0x22] @ ''A'' @ [CHR 0x22] @ '']'' @ [CHR 0x0A]
          @ ''    a --> b'' @ [CHR 0x0A] @ ''    b['' @ [CHR 0x22] @ ''B'' @ [CHR 0x22]
          @ '']'' @ [CHR 0x0A] @ ''    b --> d'' @ [CHR 0x0A] @ ''    d['' @ [CHR 0x22]
          @ ''D'' @ [CHR 0x22] @ '']'' @ [CHR 0x0A] @ ''    d --> a'' @ [CHR 0x0A]
          @ ''    a --> c'' @ [CHR 0x0A] @ ''    c['' @ [CHR 0x22] @ ''C'' @ [CHR 0x22]
          @ '']'' @ [CHR 0x0A] @ ''    c --> d'' @ [CHR 0x0A]"
    by (simp add: generateSimplifiedMermaidDiagram_def find_root_def diamond_def
        node_line_def edge_line_def replace_quotes_def)
  show ?thesis
    using export_edges_per_encounter[of "[]" _ _ _ two_cycle "[0]"] fin run dia by blast
qed

text \<open>
  C9, as the code has it. For a tree of a single node the layout computes one flow node,
  at (0, 0), and no edge; but \<^verbatim>\<open>processAttackTreeData\<close> sets \<^verbatim>\<open>nodes\<close> and \<^verbatim>\<open>edges\<close>
  only when both lists are non-empty, so nothing is handed to the graph widget and the
  state of the view stays as it was. The exporter makes exactly one statement, the
  declaration of the node, and its text is the header line followed by the single line
  \<^verbatim>\<open>    id["label"]\<close> (four blanks, the id, the label between \<^verbatim>\<open>["\<close> and \<^verbatim>\<open>"]\<close> with
  its double quotes turned into single quotes, a line feed): one node declaration and no
  connection.
\<close>

theorem single_node_tree:
  assumes "kids rootNode = []"
  shows "createNodes cfg rootNode 0 0 1 0 [] =
           [\<lparr> fn_id = node_id rootNode, fn_type = type_or_goal (node_type rootNode),
              position_x = 0, position_y = 0, data_label = node_label rootNode \<rparr>]
         \<and> createEdges rootNode [] = []
         \<and> processAttackTreeData [rootNode] st = st
         \<and> export_statements [rootNode] = [NodeDecl rootNode]
         \<and> generateSimplifiedMermaidDiagram [rootNode] =
             ''graph TD'' @ [CHR 0x0A] @ node_line (node_id rootNode) (node_label rootNode)
         \<and> generateSimplifiedMermaidDiagram [rootNode] =
             ''graph TD'' @ [CHR 0x0A]
             @ ''    '' @ node_id rootNode @ ''['' @ [CHR 0x22]
             @ map (\<lambda>c. if c = CHR 0x22 then CHR 0x27 else c) (node_label rootNode)
             @ [CHR 0x22] @ '']'' @ [CHR 0x0A]"
proof -
  have n: "createNodes cfg rootNode 0 0 1 0 [] =
           [\<lparr> fn_id = node_id rootNode, fn_type = type_or_goal (node_type rootNode),
              position_x = 0, position_y = 0, data_label = node_label rootNode \<rparr>]"
    by (subst createNodes_unfold) (simp add: assms flow_node_def x_of_def y_of_def)
  have e: "createEdges rootNode [] = []"
    by (subst createEdges_unfold) (simp add: assms)
  have p: "processAttackTreeData [rootNode] st = st"
    using assms by (rule processAttackTreeData_single)
  have r: "find_root [rootNode] = Some rootNode"
    by (simp add: find_root_def)
  have "processNode_trace rootNode ({}, []) = ({rootNode_id}, [NodeDecl rootNode])"
    if "rootNode_id = node_id rootNode" for rootNode_id
    using that assms by (subst trace_fresh) simp_all
  then have x: "export_statements [rootNode] = [NodeDecl rootNode]"
    using r by (simp add: export_statements_def)
  have g: "generateSimplifiedMermaidDiagram [rootNode] =
             ''graph TD'' @ [CHR 0x0A] @ node_line (node_id rootNode) (node_label rootNode)"
    using generate_render[of "[rootNode]"] x by simp
  have h: "generateSimplifiedMermaidDiagram [rootNode] =
             ''graph TD'' @ [CHR 0x0A]
             @ ''    '' @ node_id rootNode @ ''['' @ [CHR 0x22]
             @ map (\<lambda>c. if c = CHR 0x22 then CHR 0x27 else c) (node_label rootNode)
             @ [CHR 0x22] @ '']'' @ [CHR 0x0A]"
    by (simp only: g node_line_def replace_quotes_def)
  show ?thesis using n e p x g h by blast
qed

theorem single_node_tree_witness:
  "kids single_node = []
   \<and> processAttackTreeData [single_node] initial_view = initial_view
   \<and> generateSimplifiedMermaidDiagram [single_node] =
       ''graph TD'' @ [CHR 0x0A]
       @ ''    g['' @ [CHR 0x22] @ ''Compromise System'' @ [CHR 0x22] @ '']'' @ [CHR 0x0A]
   \<and> generateSimplifiedMermaidDiagram
         [AttackTreeNode ''n'' None (''say '' @ [CHR 0x22] @ ''hi'' @ [CHR 0x22]) (Some [])] =
       ''graph TD'' @ [CHR 0x0A]
       @ ''    n['' @ [CHR 0x22] @ ''say '' @ [CHR 0x27] @ ''hi'' @ [CHR 0x27] @ [CHR 0x22]
       @ '']'' @ [CHR 0x0A]
   \<and> length (createNodes config single_node 0 0 1 0 []) = 1"
proof -
  define quoted where
    "quoted = AttackTreeNode ''n'' None (''say '' @ [CHR 0x22] @ ''hi'' @ [CHR 0x22]) (Some [])"
  have k: "kids single_node = []" by (simp add: single_node_def)
  have k': "kids quoted = []" by (simp add: quoted_def)
  from single_node_tree[OF k, of config initial_view]
  have p: "processAttackTreeData [single_node] initial_view = initial_view"
    and t: "generateSimplifiedMermaidDiagram [single_node] =
             ''graph TD'' @ [CHR 0x0A]
             @ ''    '' @ node_id single_node @ ''['' @ [CHR 0x22]
             @ map (\<lambda>c. if c = CHR 0x22 then CHR 0x27 else c) (node_label single_node)
             @ [CHR 0x22] @ '']'' @ [CHR 0x0A]"
    and n: "createNodes config single_node 0 0 1 0 [] =
           [\<lparr> fn_id = node_id single_node, fn_type = type_or_goal (node_type single_node),
              position_x = 0, position_y = 0, data_label = node_label single_node \<rparr>]"
    by blast+
  from single_node_tree[OF k', of config initial_view]
  have t': "generateSimplifiedMermaidDiagram [quoted] =
             ''graph TD'' @ [CHR 0x0A]
             @ ''    '' @ node_id quoted @ ''['' @ [CHR 0x22]
             @ map (\<lambda>c. if c = CHR 0x22 then CHR 0x27 else c) (node_label quoted)
             @ [CHR 0x22] @ '']'' @ [CHR 0x0A]"
    by blast
  have 1: "generateSimplifiedMermaidDiagram [single_node] =
       ''graph TD'' @ [CHR 0x0A]
       @ ''    g['' @ [CHR 0x22] @ ''Compromise System'' @ [CHR 0x22] @ '']'' @ [CHR 0x0A]"
    by (simp only: t) (simp add: single_node_def)
  have 2: "generateSimplifiedMermaidDiagram
         [AttackTreeNode ''n'' None (''say '' @ [CHR 0x22] @ ''hi'' @ [CHR 0x22]) (Some [])] =
       ''graph TD'' @ [CHR 0x0A]
       @ ''    n['' @ [CHR 0x22] @ ''say '' @ [CHR 0x27] @ ''hi'' @ [CHR 0x27] @ [CHR 0x22]
       @ '']'' @ [CHR 0x0A]"
    unfolding quoted_def[symmetric] by (simp only: t') (simp add: quoted_def)
  have 3: "length (createNodes config single_node 0 0 1 0 []) = 1"
    by (simp only: n) simp
  show ?thesis using k p 1 2 3 by blast
qed

text \<open>
  C9 as stated fails: for a single node, the view receives no node at all.
\<close>

theorem single_node_not_handed_over:
  "\<not> (length (st_nodes (processAttackTreeData [single_node] initial_view)) = 1
       \<and> length (st_edges (processAttackTreeData [single_node] initial_view)) = 0)"
  by (simp add: processAttackTreeData_def single_node_def initial_view_def Let_def)

subsection \<open>The claims about the root and the kinds\<close>

text \<open>
  C6, as the code has it. The exporter takes as root the first node of kind
  \<^verbatim>\<open>goal\<close>, or the first node of the list when no node has that kind, and its text
  depends on that root only. The layout of \<^verbatim>\<open>pages/AttackTree.tsx\<close> takes the first node
  of the list whatever its kind (\<^verbatim>\<open>treeNodes[0]\<close>, "Use the first node as root"), ignores
  the rest of the list, and the first flow node it hands over is that node's.
\<close>

theorem root_designation:
  "(node_type g = Some ''goal'' \<and> (\<forall>m\<in>set pre. node_type m \<noteq> Some ''goal'')
      \<longrightarrow> find_root (pre @ g # post) = Some g)
   \<and> ((\<forall>m\<in>set (n # rest). node_type m \<noteq> Some ''goal'') \<longrightarrow> find_root (n # rest) = Some n)
   \<and> (find_root nodes = Some r \<longrightarrow>
        generateSimplifiedMermaidDiagram nodes = generateSimplifiedMermaidDiagram [r])
   \<and> processAttackTreeData (n # rest) st = processAttackTreeData [n] st
   \<and> (kids n \<noteq> [] \<longrightarrow>
        (\<exists>others. st_nodes (processAttackTreeData (n # rest) st)
                    = flow_node config n 0 0 1 0 # others))"
proof -
  have a: "node_type g = Some ''goal'' \<and> (\<forall>m\<in>set pre. node_type m \<noteq> Some ''goal'')
      \<longrightarrow> find_root (pre @ g # post) = Some g"
    using find_root_first_goal[of g pre post] by blast
  have b: "(\<forall>m\<in>set (n # rest). node_type m \<noteq> Some ''goal'') \<longrightarrow> find_root (n # rest) = Some n"
    using find_root_no_goal[of n rest] by blast
  have c: "find_root nodes = Some r \<longrightarrow>
        generateSimplifiedMermaidDiagram nodes = generateSimplifiedMermaidDiagram [r]"
    using generate_from_root[of nodes r] by blast
  have d: "processAttackTreeData (n # rest) st = processAttackTreeData [n] st"
    by (rule processAttackTreeData_first)
  have e: "kids n \<noteq> [] \<longrightarrow>
        (\<exists>others. st_nodes (processAttackTreeData (n # rest) st)
                    = flow_node config n 0 0 1 0 # others)"
  proof
    assume k: "kids n \<noteq> []"
    have "\<exists>others. createNodes config n 0 0 1 0 [] = flow_node config n 0 0 1 0 # others"
      by (subst createNodes_unfold) simp
    then show "\<exists>others. st_nodes (processAttackTreeData (n # rest) st)
                    = flow_node config n 0 0 1 0 # others"
      by (simp add: processAttackTreeData_children[OF k])
  qed
  show ?thesis using a b c d e by blast
qed

theorem root_designation_witness:
  "find_root two_roots = Some (two_roots ! 1)
   \<and> find_root [hd two_roots] = Some (hd two_roots)
   \<and> generateSimplifiedMermaidDiagram two_roots = generateSimplifiedMermaidDiagram [two_roots ! 1]
   \<and> processAttackTreeData two_roots initial_view = processAttackTreeData [hd two_roots] initial_view
   \<and> fn_id (hd (st_nodes (processAttackTreeData two_roots initial_view))) = ''a''"
proof -
  have 1: "find_root two_roots = Some (two_roots ! 1)"
    using root_designation[where g = "two_roots ! 1" and pre = "[hd two_roots]" and post = "[]"]
    by (simp add: two_roots_def)
  have 2: "find_root [hd two_roots] = Some (hd two_roots)"
    using root_designation[where n = "hd two_roots" and rest = "[]"]
    by (simp add: two_roots_def)
  have 3: "generateSimplifiedMermaidDiagram two_roots
             = generateSimplifiedMermaidDiagram [two_roots ! 1]"
    using root_designation[where nodes = two_roots and r = "two_roots ! 1"] 1 by simp
  have 4: "processAttackTreeData two_roots initial_view
             = processAttackTreeData [hd two_roots] initial_view"
    using root_designation[where n = "hd two_roots" and rest = "tl two_roots" and st = initial_view]
    by (simp add: two_roots_def)
  have 5: "fn_id (hd (st_nodes (processAttackTreeData two_roots initial_view))) = ''a''"
    by (simp add: two_roots_def processAttackTreeData_def initial_view_def Let_def)
  show ?thesis using 1 2 3 4 5 by blast
qed

text \<open>
  C6 as stated fails for the layout: the first node of kind goal is \<open>g\<close>, and the layout
  starts from \<open>a\<close>, the first node of the list; \<open>g\<close> is not laid out.
\<close>

theorem layout_root_is_first_node:
  "find (\<lambda>node. node_type node = Some ''goal'') two_roots = Some (two_roots ! 1)
   \<and> node_id (two_roots ! 1) = ''g''
   \<and> map fn_id (st_nodes (processAttackTreeData two_roots initial_view)) = [''a'', ''x'']"
  by (simp add: two_roots_def processAttackTreeData_def initial_view_def Let_def)

text \<open>
  C8, as the code has it. The layout gives the kind \<^verbatim>\<open>goal\<close> to a node whose kind is
  missing or the empty string, and passes every other kind on unchanged. The exporter never
  changes a kind: the text for a tree does not depend on the kinds in it, and among several
  nodes it picks as root one whose kind is exactly \<^verbatim>\<open>goal\<close>, or the first node when there
  is none.
\<close>

theorem kind_handling:
  "map fn_type (createNodes cfg rootNode 0 0 1 0 [])
     = map (\<lambda>n. type_or_goal (node_type n)) (subtrees rootNode)
   \<and> type_or_goal None = ''goal''
   \<and> type_or_goal (Some []) = ''goal''
   \<and> (s \<noteq> [] \<longrightarrow> type_or_goal (Some s) = s)
   \<and> generateSimplifiedMermaidDiagram [map_types f rootNode]
       = generateSimplifiedMermaidDiagram [rootNode]
   \<and> (find_root nodes = Some r \<longrightarrow>
        node_type r = Some ''goal''
        \<or> (r = hd nodes \<and> (\<forall>m\<in>set nodes. node_type m \<noteq> Some ''goal'')))"
proof -
  have a: "map fn_type (createNodes cfg rootNode 0 0 1 0 [])
     = map (\<lambda>n. type_or_goal (node_type n)) (subtrees rootNode)"
    by (rule createNodes_types)
  have b: "type_or_goal None = ''goal''" "type_or_goal (Some []) = ''goal''"
    "s \<noteq> [] \<longrightarrow> type_or_goal (Some s) = s"
    by (simp_all add: type_or_goal_def)
  have c: "generateSimplifiedMermaidDiagram [map_types f rootNode]
       = generateSimplifiedMermaidDiagram [rootNode]"
    by (simp add: generateSimplifiedMermaidDiagram_def find_root_singleton processNode_map_types)
  have d: "find_root nodes = Some r \<longrightarrow>
        node_type r = Some ''goal''
        \<or> (r = hd nodes \<and> (\<forall>m\<in>set nodes. node_type m \<noteq> Some ''goal''))"
    using find_root_kind[of nodes r] by blast
  show ?thesis using a b c d by blast
qed

theorem kind_handling_witness:
  "type_or_goal (Some ''threat'') = ''threat''
   \<and> find_root [odd_kind, goal_leaf] = Some goal_leaf
   \<and> node_type goal_leaf = Some ''goal''
   \<and> map fn_type (createNodes config odd_kind 0 0 1 0 []) = [''threat'']"
proof -
  have r: "find_root [odd_kind, goal_leaf] = Some goal_leaf"
    by (simp add: find_root_def odd_kind_def goal_leaf_def)
  have ne: "goal_leaf \<noteq> hd [odd_kind, goal_leaf]"
    by (simp add: odd_kind_def goal_leaf_def)
  show ?thesis
    using kind_handling[where s = "''threat''" and nodes = "[odd_kind, goal_leaf]"
        and r = goal_leaf and cfg = config and rootNode = odd_kind] r ne
    by (simp add: odd_kind_def)
qed

text \<open>
  C8 as stated fails: a node of kind \<^verbatim>\<open>threat\<close> keeps that kind in the layout, and the
  exporter does not take it for a goal when it picks the root.
\<close>

theorem unrecognized_kind_not_goal:
  "fn_type (hd (createNodes config odd_kind 0 0 1 0 [])) = ''threat''
   \<and> find_root [odd_kind, goal_leaf] = Some goal_leaf"
  by (simp add: odd_kind_def goal_leaf_def find_root_def type_or_goal_def)

section \<open>Properties of the tree normalizer\<close>

lemma treeNodes_of_paths:
  "treeNodes_of data =
     (if truthy (at_path [''result'', ''result'', ''attack_tree'', ''nodes''] data)
      then at_path [''result'', ''result'', ''attack_tree'', ''nodes''] data
      else if truthy (at_path [''result'', ''attack_tree'', ''nodes''] data)
      then at_path [''result'', ''attack_tree'', ''nodes''] data
      else if truthy (at_path [''result'', ''nodes''] data)
      then at_path [''result'', ''nodes''] data
      else None)"
  by (simp add: treeNodes_of_def at_path_def)

lemma treeNodes_of_truthy: "treeNodes_of data = Some w \<Longrightarrow> truthy (Some w)"
  by (auto simp: treeNodes_of_def split: if_splits)

lemma fetchData_no_shape:
  assumes "treeNodes_of data = None"
  shows "fetchData data (Inl message) = ErrorState message
    \<and> fetchData data (Inr data) = ErrorState ''Invalid attack tree data format received''"
proof
  show "fetchData data (Inl message) = ErrorState message"
    using assms by (simp add: fetchData_def)
  have "\<not> truthy (get_key (get_key (get_key (get_key (Some data) ''result'') ''result'')
                    ''attack_tree'') ''nodes'')"
    using assms by (auto simp: treeNodes_of_def split: if_splits)
  then show "fetchData data (Inr data) = ErrorState ''Invalid attack tree data format received''"
    using assms by (auto simp: fetchData_def split: option.split)
qed

lemma fetchData_fallback:
  assumes "treeNodes_of data = None"
  shows "fetchData data (Inr r) =
     (case at_path [''result'', ''result'', ''attack_tree'', ''nodes''] r of
        None \<Rightarrow> ErrorState ''Invalid attack tree data format received''
      | Some ns \<Rightarrow>
          if truthy (Some ns) then Processed ns
          else ErrorState ''Invalid attack tree data format received'')"
  using assms by (simp add: fetchData_def at_path_def)

text \<open>
  C1, as the code has it. The normalizer returns the value found at
  \<^verbatim>\<open>result.result.attack_tree.nodes\<close>, else at \<^verbatim>\<open>result.attack_tree.nodes\<close>, else at
  \<^verbatim>\<open>result.nodes\<close>, the first of them that is truthy. For every other payload, among
  them a payload with the node list under a top-level \<^verbatim>\<open>nodes\<close> key or under
  \<^verbatim>\<open>result.result.nodes\<close>, it finds nothing; then \<^verbatim>\<open>fetchData\<close> asks the service again.
  Whatever the answer \<open>r\<close> of the service is: when \<open>r\<close> has a truthy
  \<^verbatim>\<open>result.result.attack_tree.nodes\<close>, that list is processed; when it has not,
  \<^verbatim>\<open>fetchData\<close> ends in the error state of the view with the message
  \<^verbatim>\<open>Invalid attack tree data format received\<close>; when the service throws, it ends in the
  error state with the message thrown. No exception leaves \<^verbatim>\<open>fetchData\<close>.
\<close>

theorem normalizer_shapes:
  "(truthy (at_path [''result'', ''result'', ''attack_tree'', ''nodes''] data) \<longrightarrow>
      treeNodes_of data = at_path [''result'', ''result'', ''attack_tree'', ''nodes''] data)
   \<and> (\<not> truthy (at_path [''result'', ''result'', ''attack_tree'', ''nodes''] data)
        \<and> truthy (at_path [''result'', ''attack_tree'', ''nodes''] data) \<longrightarrow>
      treeNodes_of data = at_path [''result'', ''attack_tree'', ''nodes''] data)
   \<and> (\<not> truthy (at_path [''result'', ''result'', ''attack_tree'', ''nodes''] data)
        \<and> \<not> truthy (at_path [''result'', ''attack_tree'', ''nodes''] data)
        \<and> truthy (at_path [''result'', ''nodes''] data) \<longrightarrow>
      treeNodes_of data = at_path [''result'', ''nodes''] data)
   \<and> (\<not> truthy (at_path [''result'', ''result'', ''attack_tree'', ''nodes''] data)
        \<and> \<not> truthy (at_path [''result'', ''attack_tree'', ''nodes''] data)
        \<and> \<not> truthy (at_path [''result'', ''nodes''] data) \<longrightarrow>
      treeNodes_of data = None
      \<and> fetchData data (Inl message) = ErrorState message
      \<and> fetchData data (Inr data) = ErrorState ''Invalid attack tree data format received''
      \<and> (\<not> truthy (at_path [''result'', ''result'', ''attack_tree'', ''nodes''] r) \<longrightarrow>
           fetchData data (Inr r) = ErrorState ''Invalid attack tree data format received'')
      \<and> (truthy (at_path [''result'', ''result'', ''attack_tree'', ''nodes''] r) \<longrightarrow>
           (\<exists>ns. at_path [''result'', ''result'', ''attack_tree'', ''nodes''] r = Some ns
                 \<and> fetchData data (Inr r) = Processed ns)))
   \<and> (treeNodes_of data = Some w \<longrightarrow> truthy (Some w) \<and> fetchData data fallback = Processed w)
   \<and> treeNodes_of (JObject [(''nodes'', v)]) = None
   \<and> treeNodes_of (JObject [(''result'', JObject [(''result'', JObject [(''nodes'', v)])])]) = None"
proof -
  have none: "treeNodes_of data = None
      \<and> fetchData data (Inl message) = ErrorState message
      \<and> fetchData data (Inr data) = ErrorState ''Invalid attack tree data format received''
      \<and> (\<not> truthy (at_path [''result'', ''result'', ''attack_tree'', ''nodes''] r) \<longrightarrow>
           fetchData data (Inr r) = ErrorState ''Invalid attack tree data format received'')
      \<and> (truthy (at_path [''result'', ''result'', ''attack_tree'', ''nodes''] r) \<longrightarrow>
           (\<exists>ns. at_path [''result'', ''result'', ''attack_tree'', ''nodes''] r = Some ns
                 \<and> fetchData data (Inr r) = Processed ns))"
    if "\<not> truthy (at_path [''result'', ''result'', ''attack_tree'', ''nodes''] data)"
       "\<not> truthy (at_path [''result'', ''attack_tree'', ''nodes''] data)"
       "\<not> truthy (at_path [''result'', ''nodes''] data)"
  proof -
    have t: "treeNodes_of data = None" using that by (simp add: treeNodes_of_paths)
    have a: "fetchData data (Inl message) = ErrorState message
      \<and> fetchData data (Inr data) = ErrorState ''Invalid attack tree data format received''"
      using t by (rule fetchData_no_shape)
    have b: "\<not> truthy (at_path [''result'', ''result'', ''attack_tree'', ''nodes''] r) \<longrightarrow>
           fetchData data (Inr r) = ErrorState ''Invalid attack tree data format received''"
      by (simp add: fetchData_fallback[OF t] split: option.split)
    have c: "truthy (at_path [''result'', ''result'', ''attack_tree'', ''nodes''] r) \<longrightarrow>
           (\<exists>ns. at_path [''result'', ''result'', ''attack_tree'', ''nodes''] r = Some ns
                 \<and> fetchData data (Inr r) = Processed ns)"
      by (cases "at_path [''result'', ''result'', ''attack_tree'', ''nodes''] r")
         (simp_all add: fetchData_fallback[OF t])
    show ?thesis using t a b c by blast
  qed
  have some: "truthy (Some w) \<and> fetchData data fallback = Processed w"
    if "treeNodes_of data = Some w"
    using that treeNodes_of_truthy[of data w] by (simp add: fetchData_def)
  have top: "treeNodes_of (JObject [(''nodes'', v)]) = None"
    by (simp add: treeNodes_of_def)
  have nested: "treeNodes_of (JObject [(''result'', JObject [(''result'', JObject [(''nodes'', v)])])]) = None"
    by (simp add: treeNodes_of_def)
  have shapes:
    "truthy (at_path [''result'', ''result'', ''attack_tree'', ''nodes''] data) \<longrightarrow>
      treeNodes_of data = at_path [''result'', ''result'', ''attack_tree'', ''nodes''] data"
    "\<not> truthy (at_path [''result'', ''result'', ''attack_tree'', ''nodes''] data)
        \<and> truthy (at_path [''result'', ''attack_tree'', ''nodes''] data) \<longrightarrow>
      treeNodes_of data = at_path [''result'', ''attack_tree'', ''nodes''] data"
    "\<not> truthy (at_path [''result'', ''result'', ''attack_tree'', ''nodes''] data)
        \<and> \<not> truthy (at_path [''result'', ''attack_tree'', ''nodes''] data)
        \<and> truthy (at_path [''result'', ''nodes''] data) \<longrightarrow>
      treeNodes_of data = at_path [''result'', ''nodes''] data"
    by (simp_all add: treeNodes_of_paths)
  show ?thesis
    using none some top nested shapes by blast
qed

theorem normalizer_shapes_witness:
  "treeNodes_of double_nested = Some (JArray [a_node])
   \<and> treeNodes_of standard_shape = Some (JArray [a_node])
   \<and> treeNodes_of result_nodes = Some (JArray [a_node])
   \<and> fetchData result_nodes (Inl ''Failed to fetch attack tree'') = Processed (JArray [a_node])
   \<and> treeNodes_of (JArray []) = None
   \<and> fetchData (JArray []) (Inl ''Failed to fetch attack tree'')
        = ErrorState ''Failed to fetch attack tree''
   \<and> fetchData top_level_nodes (Inr double_nested) = Processed (JArray [a_node])
   \<and> fetchData top_level_nodes (Inr standard_shape)
        = ErrorState ''Invalid attack tree data format received''"
proof -
  have 1: "treeNodes_of double_nested = Some (JArray [a_node])"
    using normalizer_shapes[of double_nested]
    by (simp add: double_nested_def at_path_def)
  have 2: "treeNodes_of standard_shape = Some (JArray [a_node])"
    using normalizer_shapes[of standard_shape]
    by (simp add: standard_shape_def at_path_def)
  have 3: "treeNodes_of result_nodes = Some (JArray [a_node])"
    using normalizer_shapes[of result_nodes]
    by (simp add: result_nodes_def at_path_def)
  have 4: "fetchData result_nodes (Inl ''Failed to fetch attack tree'') = Processed (JArray [a_node])"
    using normalizer_shapes[where data = result_nodes and w = "JArray [a_node]"
        and fallback = "Inl ''Failed to fetch attack tree''"] 3
    by simp
  have 5: "treeNodes_of (JArray []) = None
     \<and> fetchData (JArray []) (Inl ''Failed to fetch attack tree'')
        = ErrorState ''Failed to fetch attack tree''"
    using normalizer_shapes[where data = "JArray []" and message = "''Failed to fetch attack tree''"]
    by (simp add: at_path_def)
  have no_shape:
    "\<not> truthy (at_path [''result'', ''result'', ''attack_tree'', ''nodes''] top_level_nodes)"
    "\<not> truthy (at_path [''result'', ''attack_tree'', ''nodes''] top_level_nodes)"
    "\<not> truthy (at_path [''result'', ''nodes''] top_level_nodes)"
    by (simp_all add: top_level_nodes_def at_path_def)
  have answer: "at_path [''result'', ''result'', ''attack_tree'', ''nodes''] double_nested
                  = Some (JArray [a_node])"
    by (simp add: double_nested_def at_path_def)
  have 6: "fetchData top_level_nodes (Inr double_nested) = Processed (JArray [a_node])"
    using normalizer_shapes[where data = top_level_nodes and r = double_nested] no_shape answer
    by auto
  have "\<not> truthy (at_path [''result'', ''result'', ''attack_tree'', ''nodes''] standard_shape)"
    by (simp add: standard_shape_def at_path_def)
  then have 7: "fetchData top_level_nodes (Inr standard_shape)
        = ErrorState ''Invalid attack tree data format received''"
    using normalizer_shapes[where data = top_level_nodes and r = standard_shape] no_shape
    by blast
  show ?thesis using 1 2 3 4 5 6 7 by blast
qed

text \<open>
  C1 as stated fails: a node list under a top-level \<^verbatim>\<open>nodes\<close> key, or under
  \<^verbatim>\<open>result.result.nodes\<close>, is not found, also when the fallback request returns the same
  payload.
\<close>

theorem top_level_nodes_not_found:
  "treeNodes_of top_level_nodes = None
   \<and> fetchData top_level_nodes (Inr top_level_nodes)
        = ErrorState ''Invalid attack tree data format received''
   \<and> treeNodes_of nested_nodes = None
   \<and> fetchData nested_nodes (Inr nested_nodes)
        = ErrorState ''Invalid attack tree data format received''"
  by (simp add: top_level_nodes_def nested_nodes_def treeNodes_of_def fetchData_def)

end
